theory Spec2Isabelle
  imports Main "HOL-Library.AList"
begin

section \<open>Strings\<close>

text \<open>
  A Python \<open>str\<close> is a sequence of Unicode code points. A character is modelled as
  its code point, the integer that \<open>ord\<close> gives, and a \<open>str\<close> as the list of them.
  \<open>py\<close> turns a literal into such a list.
\<close>

type_synonym pystr = "int list"

definition py :: "string \<Rightarrow> pystr" where
  "py s = map of_char s"

abbreviation TAB :: int where "TAB \<equiv> 0x09"
abbreviation LF :: int where "LF \<equiv> 0x0A"
abbreviation CR :: int where "CR \<equiv> 0x0D"
abbreviation SPACE :: int where "SPACE \<equiv> 0x20"
abbreviation HASH :: int where "HASH \<equiv> 0x23"
abbreviation EQUALS :: int where "EQUALS \<equiv> 0x3D"
abbreviation UNDERSCORE :: int where "UNDERSCORE \<equiv> 0x5F"

text \<open>
  \<open>str.isspace\<close>, which is also the class \<open>\s\<close> of \<open>re\<close> on a \<open>str\<close> pattern: the
  code points of the Unicode categories of whitespace.
\<close>

definition is_space :: "int \<Rightarrow> bool" where
  "is_space c = (c \<in> set [0x09, 0x0A, 0x0B, 0x0C, 0x0D, 0x1C, 0x1D, 0x1E, 0x1F, 0x20, 0x85, 0xA0,
     0x1680, 0x2000, 0x2001, 0x2002, 0x2003, 0x2004, 0x2005, 0x2006, 0x2007, 0x2008, 0x2009, 0x200A,
     0x2028, 0x2029, 0x202F, 0x205F, 0x3000])"

text \<open>The line boundaries of \<open>str.splitlines\<close>.\<close>

definition linebreaks :: "int list" where
  "linebreaks = [0x0A, 0x0B, 0x0C, 0x0D, 0x1C, 0x1D, 0x1E, 0x85, 0x2028, 0x2029]"

definition is_linebreak :: "int \<Rightarrow> bool" where
  "is_linebreak c = (c \<in> set linebreaks)"

text \<open>\<open>str.strip()\<close>: whitespace is removed at both ends.\<close>

definition strip :: "pystr \<Rightarrow> pystr" where
  "strip s = rev (dropWhile is_space (rev (dropWhile is_space s)))"

text \<open>\<open>s.split(sep)\<close> for a separator of one character: never an empty list.\<close>

fun str_split :: "int \<Rightarrow> pystr \<Rightarrow> pystr list" where
  "str_split sep [] = [[]]"
| "str_split sep (c # cs) =
     (if c = sep then [] # str_split sep cs
      else (case str_split sep cs of [] \<Rightarrow> [[c]] | w # ws \<Rightarrow> (c # w) # ws))"

text \<open>\<open>sep.join(xs)\<close>.\<close>

fun str_join :: "pystr \<Rightarrow> pystr list \<Rightarrow> pystr" where
  "str_join sep [] = []"
| "str_join sep [x] = x"
| "str_join sep (x # y # ys) = x @ sep @ str_join sep (y # ys)"

text \<open>
  \<open>str.splitlines()\<close>: the text is cut at every line boundary, \<open>\r\n\<close> counting as one,
  and no empty last line is produced after a final boundary. The first argument is the
  line read so far.
\<close>

fun splitlines_from :: "pystr \<Rightarrow> pystr \<Rightarrow> pystr list" where
  "splitlines_from cur [] = (if cur = [] then [] else [cur])"
| "splitlines_from cur (c # cs) =
     (if c = CR then
        (case cs of
           [] \<Rightarrow> [cur]
         | d # ds \<Rightarrow> if d = LF then cur # splitlines_from [] ds
                    else cur # splitlines_from [] (d # ds))
      else if is_linebreak c then cur # splitlines_from [] cs
      else splitlines_from (cur @ [c]) cs)"

definition splitlines :: "pystr \<Rightarrow> pystr list" where
  "splitlines s = splitlines_from [] s"

section \<open>Dictionaries\<close>

text \<open>
  A \<open>dict\<close> keeps its keys in insertion order, and the serializer reads the metadata in
  that order: it is an association list. \<open>d[k] = v\<close> is \<open>AList.update\<close>, which replaces
  the value of a key already there in place and appends a new key at the end.
\<close>

type_synonym ('k, 'v) dict = "('k \<times> 'v) list"

definition dict_of :: "('k \<times> 'v) list \<Rightarrow> ('k, 'v) dict" where
  "dict_of ps = foldl (\<lambda>d (k, v). AList.update k v d) [] ps"

definition dict_get :: "('k, 'v) dict \<Rightarrow> 'k \<Rightarrow> 'v \<Rightarrow> 'v" where
  "dict_get d k dflt = (case map_of d k of None \<Rightarrow> dflt | Some v \<Rightarrow> v)"

section \<open>The data model\<close>

definition fieldnames :: "pystr list" where
  "fieldnames = [py ''id'', py ''form'', py ''lemma'', py ''upos'', py ''xpos'', py ''feats'', py ''head'',
     py ''deprel'', py ''deps'', py ''misc'']"

type_synonym token = "(pystr, pystr) dict"

record TokenList =
  tokens :: "token list"
  metadata :: "(pystr, pystr option) dict"

definition mk_TokenList :: "token list \<Rightarrow> (pystr, pystr option) dict \<Rightarrow> TokenList" where
  "mk_TokenList toks md = \<lparr>tokens = toks, metadata = md\<rparr>"

section \<open>Serializing\<close>

definition metadata_line :: "pystr \<times> pystr option \<Rightarrow> pystr" where
  "metadata_line kv =
     (case kv of (key, value) \<Rightarrow>
        (case value of
           None \<Rightarrow> py ''# '' @ key
         | Some v \<Rightarrow> if v \<noteq> [] then py ''# '' @ key @ py '' = '' @ v else py ''# '' @ key))"

definition token_cells :: "token \<Rightarrow> pystr list" where
  "token_cells tok = map (\<lambda>key. dict_get tok key (py ''_'')) fieldnames"

definition token_line :: "token \<Rightarrow> pystr" where
  "token_line tok = str_join [TAB] (token_cells tok)"

definition line_buf :: "TokenList \<Rightarrow> pystr list" where
  "line_buf u = map metadata_line (metadata u) @ map token_line (tokens u)"

definition serialize :: "TokenList \<Rightarrow> pystr" where
  "serialize u = str_join [LF] (line_buf u) @ [LF]"

section \<open>The metadata pattern\<close>

text \<open>
  \<open>re.fullmatch(r"#\s+(.+?)(\s+=\s+(.*))?", line)\<close>. The matcher of \<open>re\<close> backtracks,
  and the first way of matching it finds decides the groups. Each quantifier is a function
  that takes what follows it in the pattern as a continuation on the rest of the line:
  a greedy one tries to take one more character before it tries the continuation, a lazy
  one tries the continuation first.
\<close>

fun greedy_plus :: "(int \<Rightarrow> bool) \<Rightarrow> (pystr \<Rightarrow> 'a option) \<Rightarrow> pystr \<Rightarrow> 'a option" where
  "greedy_plus p k [] = None"
| "greedy_plus p k (c # cs) =
     (if p c then (case greedy_plus p k cs of Some r \<Rightarrow> Some r | None \<Rightarrow> k cs)
      else None)"

text \<open>The capturing quantifiers carry the text captured so far.\<close>

fun greedy_star :: "(int \<Rightarrow> bool) \<Rightarrow> (pystr \<Rightarrow> pystr \<Rightarrow> 'a option) \<Rightarrow> pystr \<Rightarrow> pystr
    \<Rightarrow> 'a option" where
  "greedy_star p k cap [] = k cap []"
| "greedy_star p k cap (c # cs) =
     (if p c then
        (case greedy_star p k (cap @ [c]) cs of Some r \<Rightarrow> Some r | None \<Rightarrow> k cap (c # cs))
      else k cap (c # cs))"

fun lazy_plus :: "(int \<Rightarrow> bool) \<Rightarrow> (pystr \<Rightarrow> pystr \<Rightarrow> 'a option) \<Rightarrow> pystr \<Rightarrow> pystr
    \<Rightarrow> 'a option" where
  "lazy_plus p k cap [] = None"
| "lazy_plus p k cap (c # cs) =
     (if p c then
        (case k (cap @ [c]) cs of Some r \<Rightarrow> Some r | None \<Rightarrow> lazy_plus p k (cap @ [c]) cs)
      else None)"

text \<open>The dot of the pattern: every character but the line feed.\<close>

definition dot :: "int \<Rightarrow> bool" where
  "dot c = (c \<noteq> LF)"

text \<open>The end of the line, which \<open>fullmatch\<close> requires after the pattern.\<close>

definition at_end :: "'a \<Rightarrow> pystr \<Rightarrow> 'a option" where
  "at_end r s = (if s = [] then Some r else None)"

text \<open>\<open>\s+=\s+(.*)\<close> up to the end of the line; the result is group 3.\<close>

definition match_value :: "pystr \<Rightarrow> pystr option" where
  "match_value s =
     greedy_plus is_space
       (\<lambda>s1. case s1 of
                [] \<Rightarrow> None
              | c # s2 \<Rightarrow>
                  if c = EQUALS
                  then greedy_plus is_space (greedy_star dot (\<lambda>v rest. at_end v rest) []) s2
                  else None) s"

text \<open>
  \<open>(.+?)(\s+=\s+(.*))?\<close> up to the end of the line; the result is groups 1 and 3.
  The optional group is greedy: it is tried before the pattern goes on without it.
\<close>

definition match_key_value :: "pystr \<Rightarrow> (pystr \<times> pystr option) option" where
  "match_key_value s =
     lazy_plus dot
       (\<lambda>key rest. case match_value rest of
                      Some v \<Rightarrow> Some (key, Some v)
                    | None \<Rightarrow> at_end (key, None) rest) [] s"

definition maybe_parse_metadata :: "pystr \<Rightarrow> (pystr \<times> pystr option) option" where
  "maybe_parse_metadata line =
     (case line of
        [] \<Rightarrow> None
      | c # rest \<Rightarrow> if c = HASH then greedy_plus is_space match_key_value rest else None)"

section \<open>Parsing\<close>

definition parse_token :: "pystr \<Rightarrow> token" where
  "parse_token line = dict_of (zip fieldnames (str_split TAB line))"

text \<open>The loop of \<open>parse_from_string\<close>, on the lines that are left.\<close>

fun parse_lines :: "(pystr, pystr option) dict \<Rightarrow> token list \<Rightarrow> pystr list \<Rightarrow> TokenList" where
  "parse_lines md toks [] = mk_TokenList toks md"
| "parse_lines md toks (raw # rest) =
     (let line = strip raw in
      case maybe_parse_metadata line of
        Some (key, value) \<Rightarrow> parse_lines (AList.update key value md) toks rest
      | None \<Rightarrow> parse_lines md (toks @ [parse_token line]) rest)"

definition parse_from_string :: "pystr \<Rightarrow> TokenList" where
  "parse_from_string buffer = parse_lines [] [] (splitlines buffer)"

text \<open>
  The generator \<open>_parse_from_handle\<close>: the handle is the list of the lines it gives, and
  the result is the list of the units yielded, in the order they are yielded. A unit
  yielded at a blank line is a copy of the accumulators, which are then emptied.
\<close>

fun parse_from_handle_loop ::
    "(pystr, pystr option) dict \<Rightarrow> token list \<Rightarrow> pystr list \<Rightarrow> TokenList list" where
  "parse_from_handle_loop md toks [] =
     (if toks \<noteq> [] \<or> md \<noteq> [] then [mk_TokenList toks md] else [])"
| "parse_from_handle_loop md toks (raw # rest) =
     (let line = strip raw in
      if line = [] then
        (if toks \<noteq> [] \<or> md \<noteq> []
         then mk_TokenList toks md # parse_from_handle_loop [] [] rest
         else parse_from_handle_loop md toks rest)
      else
        (case maybe_parse_metadata line of
           Some (key, value) \<Rightarrow> parse_from_handle_loop (AList.update key value md) toks rest
         | None \<Rightarrow> parse_from_handle_loop md (toks @ [parse_token line]) rest))"

definition parse_from_handle :: "pystr list \<Rightarrow> TokenList list" where
  "parse_from_handle handle = parse_from_handle_loop [] [] handle"

section \<open>Notions of the specification\<close>

text \<open>A blank line: nothing is left of it once it is stripped.\<close>

definition blank :: "pystr \<Rightarrow> bool" where
  "blank raw = (strip raw = [])"

text \<open>
  The sentences of a line source are its maximal runs of lines that are not blank. The
  first argument is the run read so far.
\<close>

fun sentences_from :: "pystr list \<Rightarrow> pystr list \<Rightarrow> pystr list list" where
  "sentences_from cur [] = (if cur = [] then [] else [cur])"
| "sentences_from cur (l # ls) =
     (if blank l then (if cur = [] then sentences_from [] ls else cur # sentences_from [] ls)
      else sentences_from (cur @ [l]) ls)"

definition sentences :: "pystr list \<Rightarrow> pystr list list" where
  "sentences handle = sentences_from [] handle"

text \<open>
  Duplicate separators collapsed: of every run of blank lines only the first is kept, and
  blank lines before any content are dropped. The flag says that the line before was
  blank, or that there was none.
\<close>

fun collapse_from :: "bool \<Rightarrow> pystr list \<Rightarrow> pystr list" where
  "collapse_from after_blank [] = []"
| "collapse_from after_blank (l # ls) =
     (if blank l then (if after_blank then collapse_from True ls else l # collapse_from True ls)
      else l # collapse_from False ls)"

definition collapse :: "pystr list \<Rightarrow> pystr list" where
  "collapse handle = collapse_from True handle"

text \<open>Sentences written one after the other with one separator line between two of them.\<close>

fun separated :: "pystr \<Rightarrow> pystr list list \<Rightarrow> pystr list" where
  "separated sep [] = []"
| "separated sep [g] = g"
| "separated sep (g # h # gs) = g @ [sep] @ separated sep (h # gs)"

text \<open>The keys of a list of writes in the order in which each is first written.\<close>

definition first_seen :: "'a list \<Rightarrow> 'a list" where
  "first_seen ks = rev (remdups (rev ks))"

text \<open>The metadata entries and the token lines among stripped lines, in line order.\<close>

definition metadata_entries :: "pystr list \<Rightarrow> (pystr \<times> pystr option) list" where
  "metadata_entries ls = List.map_filter maybe_parse_metadata (map strip ls)"

definition token_lines :: "pystr list \<Rightarrow> pystr list" where
  "token_lines ls = filter (\<lambda>l. maybe_parse_metadata l = None) (map strip ls)"


text \<open>The character does not occur in the keys, the values and the rendered cells of a unit.\<close>

definition unit_free_of :: "int \<Rightarrow> TokenList \<Rightarrow> bool" where
  "unit_free_of c u =
     (list_all (\<lambda>kv. c \<notin> set (fst kv) \<and> (case snd kv of None \<Rightarrow> True | Some v \<Rightarrow> c \<notin> set v))
        (metadata u)
      \<and> list_all (\<lambda>tok. list_all (\<lambda>cell. c \<notin> set cell) (token_cells tok)) (tokens u))"


text \<open>
  The round trip of the specification: the unit parsed from the serialized text has the
  same cells in every token (a field that is absent counted as the underscore on both
  sides) and the same metadata entries in the same order.
\<close>

definition round_trips :: "TokenList \<Rightarrow> bool" where
  "round_trips u =
     (map token_cells (tokens (parse_from_string (serialize u))) = map token_cells (tokens u)
      \<and> metadata (parse_from_string (serialize u)) = metadata u)"

text \<open>
  No separator in the text: no equals sign with a whitespace character right before it and
  a whitespace character right after it.
\<close>

fun no_separator :: "pystr \<Rightarrow> bool" where
  "no_separator (a # b # c # cs) =
     (\<not> (is_space a \<and> b = EQUALS \<and> is_space c) \<and> no_separator (b # c # cs))"
| "no_separator cs = True"

text \<open>
  Units for which the round trip is proved. The unit has a metadata entry or a token; its
  keys are distinct, as those of a \<open>dict\<close> are; no line boundary occurs in its keys,
  values and cells, and no tab in its cells; a key is not empty, has no whitespace at
  either end and no separator in it, nor one made by an equals sign at its end with the
  space written before a value; a value that is present is not empty and has no whitespace
  at either end; the first cell of a token is not empty, does not begin with whitespace,
  and is not a number sign alone or followed by whitespace; its last cell is not empty and
  does not end with whitespace.
\<close>

definition key_safe :: "pystr \<Rightarrow> pystr option \<Rightarrow> bool" where
  "key_safe k v =
     (k \<noteq> [] \<and> \<not> is_space (hd k) \<and> \<not> is_space (last k)
      \<and> no_separator (case v of None \<Rightarrow> k | Some s \<Rightarrow> k @ [SPACE]))"

definition value_safe :: "pystr \<Rightarrow> bool" where
  "value_safe v = (v \<noteq> [] \<and> \<not> is_space (hd v) \<and> \<not> is_space (last v))"

definition first_cell_safe :: "pystr \<Rightarrow> bool" where
  "first_cell_safe cell =
     (cell \<noteq> [] \<and> \<not> is_space (hd cell)
      \<and> \<not> (hd cell = HASH \<and> (tl cell = [] \<or> is_space (hd (tl cell)))))"

definition token_safe :: "token \<Rightarrow> bool" where
  "token_safe tok =
     (list_all (\<lambda>cell. TAB \<notin> set cell) (token_cells tok)
      \<and> first_cell_safe (hd (token_cells tok))
      \<and> last (token_cells tok) \<noteq> []
      \<and> \<not> is_space (last (last (token_cells tok))))"

definition round_trip_safe :: "TokenList \<Rightarrow> bool" where
  "round_trip_safe u =
     ((tokens u \<noteq> [] \<or> metadata u \<noteq> [])
      \<and> distinct (map fst (metadata u))
      \<and> list_all (\<lambda>c. unit_free_of c u) linebreaks
      \<and> list_all (\<lambda>kv. key_safe (fst kv) (snd kv)
                       \<and> (case snd kv of None \<Rightarrow> True | Some v \<Rightarrow> value_safe v))
           (metadata u)
      \<and> list_all token_safe (tokens u))"

section \<open>The backtracking quantifiers\<close>


lemma greedy_plus_no_space:
  "s = [] \<or> \<not> p (hd s) \<Longrightarrow> greedy_plus p k s = None"
  by (cases s) auto

lemma greedy_star_at_end:
  "greedy_star p (\<lambda>v rest. at_end v rest) cap s = (if \<forall>c\<in>set s. p c then Some (cap @ s) else None)"
  by (induction s arbitrary: cap) (auto simp: at_end_def)


lemma lazy_plus_first:
  "xs \<noteq> [] \<Longrightarrow> \<forall>c\<in>set xs. p c \<Longrightarrow>
   (\<forall>n. 0 < n \<longrightarrow> n < length xs \<longrightarrow> k (cap @ take n xs) (drop n xs @ ys) = None) \<Longrightarrow>
   lazy_plus p k cap (xs @ ys) = (case k (cap @ xs) ys of Some r \<Rightarrow> Some r | None \<Rightarrow> lazy_plus p k (cap @ xs) ys)"
proof (induction xs arbitrary: cap)
  case Nil
  then show ?case by simp
next
  case (Cons c cs)
  show ?case
  proof (cases "cs = []")
    case True
    then show ?thesis using Cons.prems by (auto split: option.splits)
  next
    case False
    have k1: "k (cap @ [c]) (cs @ ys) = None"
      using Cons.prems(3)[rule_format, of 1] False by (cases cs) auto
    have rest: "\<forall>n. 0 < n \<longrightarrow> n < length cs \<longrightarrow> k ((cap @ [c]) @ take n cs) (drop n cs @ ys) = None"
    proof (intro allI impI)
      fix n assume "0 < n" "n < length cs"
      then show "k ((cap @ [c]) @ take n cs) (drop n cs @ ys) = None"
        using Cons.prems(3)[rule_format, of "Suc n"] by simp
    qed
    have "lazy_plus p k (cap @ [c]) (cs @ ys) =
        (case k ((cap @ [c]) @ cs) ys of Some r \<Rightarrow> Some r | None \<Rightarrow> lazy_plus p k ((cap @ [c]) @ cs) ys)"
      using Cons.IH[OF False _ rest] Cons.prems(2) by simp
    then show ?thesis using Cons.prems(2) k1 by (auto split: option.splits)
  qed
qed

section \<open>Whitespace, splitting and joining\<close>

lemma py_simps [simp]: "py [] = []" "py (c # cs) = of_char c # py cs"
  by (simp_all add: py_def)

lemma is_space_simps [simp]:
  "is_space TAB" "is_space LF" "is_space (SPACE)" "\<not> is_space (HASH)" "\<not> is_space (EQUALS)"
  "\<not> is_space (UNDERSCORE)"
  by (simp_all add: is_space_def)

lemma linebreak_is_space: "is_linebreak c \<Longrightarrow> is_space c"
  by (auto simp: is_linebreak_def linebreaks_def is_space_def)

lemma strip_Nil [simp]: "strip [] = []"
  by (simp add: strip_def)

lemma strip_id:
  assumes "s \<noteq> []" "\<not> is_space (hd s)" "\<not> is_space (last s)"
  shows "strip s = s"
proof -
  have 1: "dropWhile is_space s = s" using assms by (cases s) auto
  have 2: "dropWhile is_space (rev s) = rev s" using assms by (cases "rev s") (auto simp: last_rev hd_rev)
  show ?thesis by (simp add: strip_def 1 2)
qed

section \<open>Dictionaries with distinct keys\<close>

lemma update_fresh: "k \<notin> fst ` set d \<Longrightarrow> AList.update k v d = d @ [(k, v)]"
  by (induction d) auto

lemma foldl_update_distinct:
  "distinct (map fst (d @ ps)) \<Longrightarrow> foldl (\<lambda>d (k, v). AList.update k v d) d ps = d @ ps"
proof (induction ps arbitrary: d)
  case Nil
  show ?case by simp
next
  case (Cons kv ps)
  obtain k v where kv: "kv = (k, v)" by (cases kv)
  have fresh: "k \<notin> fst ` set d" using Cons.prems kv by auto
  have "distinct (map fst ((d @ [(k, v)]) @ ps))" using Cons.prems kv by auto
  from Cons.IH[OF this] show ?case by (simp add: kv update_fresh[OF fresh])
qed

lemma dict_of_distinct: "distinct (map fst ps) \<Longrightarrow> dict_of ps = ps"
  using foldl_update_distinct[of "[]" ps] by (simp add: dict_of_def)

lemma distinct_fieldnames: "distinct fieldnames"
  by (simp add: fieldnames_def)

lemma length_fieldnames: "length fieldnames = 10"
  by (simp add: fieldnames_def)

lemma parse_token_zip: "parse_token line = zip fieldnames (str_split TAB line)"
proof -
  have "distinct (map fst (zip fieldnames (str_split TAB line)))"
    by (simp add: map_fst_zip_take distinct_fieldnames)
  then show ?thesis by (simp add: parse_token_def dict_of_distinct)
qed

lemma str_split_nonempty: "str_split sep s \<noteq> []"
  by (induction s) (auto split: list.splits)

lemma str_join_split: "str_join [sep] (str_split sep s) = s"
proof (induction s)
  case Nil show ?case by simp
next
  case (Cons c cs)
  obtain w ws where w: "str_split sep cs = w # ws" using str_split_nonempty[of sep cs] by (cases "str_split sep cs") auto
  show ?case using Cons w by (cases ws) auto
qed

lemma str_split_no_sep: "w \<in> set (str_split sep s) \<Longrightarrow> sep \<notin> set w"
  by (induction s arbitrary: w) (auto split: if_splits list.splits)

lemma str_split_no_sep_id: "sep \<notin> set x \<Longrightarrow> str_split sep x = [x]"
  by (induction x) auto

lemma str_split_append_sep:
  "sep \<notin> set x \<Longrightarrow> str_split sep (x @ sep # r) = x # str_split sep r"
  by (induction x) auto

lemma str_split_join:
  "xs \<noteq> [] \<Longrightarrow> \<forall>x\<in>set xs. sep \<notin> set x \<Longrightarrow> str_split sep (str_join [sep] xs) = xs"
proof (induction xs)
  case Nil then show ?case by simp
next
  case (Cons x xs)
  show ?case
  proof (cases xs)
    case Nil
    then show ?thesis using Cons.prems by (simp add: str_split_no_sep_id)
  next
    case (Cons y ys)
    then show ?thesis using Cons.prems Cons.IH by (simp add: str_split_append_sep)
  qed
qed

section \<open>The loops of the two parsers\<close>

lemma parse_lines_step:
  "parse_lines md toks (raw # rest) =
     (case maybe_parse_metadata (strip raw) of
        Some (key, value) \<Rightarrow> parse_lines (AList.update key value md) toks rest
      | None \<Rightarrow> parse_lines md (toks @ [parse_token (strip raw)]) rest)"
  by (simp add: Let_def)

lemma parse_lines_append:
  "parse_lines md toks (xs @ ys) =
     parse_lines (metadata (parse_lines md toks xs)) (tokens (parse_lines md toks xs)) ys"
proof (induction xs arbitrary: md toks)
  case Nil
  show ?case by (simp add: mk_TokenList_def)
next
  case (Cons x xs)
  show ?case by (simp add: Let_def Cons.IH split: option.splits)
qed

lemma update_not_Nil: "AList.update k v d \<noteq> []"
  by (cases d) auto

lemma parse_lines_grows:
  "toks \<noteq> [] \<or> md \<noteq> [] \<Longrightarrow>
   tokens (parse_lines md toks ls) \<noteq> [] \<or> metadata (parse_lines md toks ls) \<noteq> []"
proof (induction ls arbitrary: md toks)
  case Nil
  then show ?case by (simp add: mk_TokenList_def)
next
  case (Cons l ls)
  show ?case
  proof (cases "maybe_parse_metadata (strip l)")
    case None
    then show ?thesis using Cons.IH[of "toks @ [parse_token (strip l)]" md] by (simp add: Let_def)
  next
    case (Some kv)
    obtain k v where "kv = (k, v)" by (cases kv)
    then show ?thesis using Some Cons.IH[of toks "AList.update k v md"] update_not_Nil[of k v md]
      by (simp add: Let_def)
  qed
qed

lemma parse_lines_nonempty:
  "ls \<noteq> [] \<Longrightarrow>
   tokens (parse_lines md toks ls) \<noteq> [] \<or> metadata (parse_lines md toks ls) \<noteq> []"
proof (cases ls)
  case Nil
  assume "ls \<noteq> []" then show ?thesis using Nil by simp
next
  case (Cons l rest)
  show ?thesis
  proof (cases "maybe_parse_metadata (strip l)")
    case None
    then show ?thesis using Cons parse_lines_grows[of "toks @ [parse_token (strip l)]" md rest]
      by (simp add: Let_def)
  next
    case (Some kv)
    obtain k v where "kv = (k, v)" by (cases kv)
    then show ?thesis
      using Some Cons parse_lines_grows[of toks "AList.update k v md" rest] update_not_Nil[of k v md]
      by (simp add: Let_def)
  qed
qed

lemma loop_blank:
  "blank raw \<Longrightarrow> parse_from_handle_loop md toks (raw # rest) =
     (if toks \<noteq> [] \<or> md \<noteq> [] then mk_TokenList toks md # parse_from_handle_loop [] [] rest
      else parse_from_handle_loop md toks rest)"
  by (simp add: blank_def)

lemma loop_content:
  "\<not> blank raw \<Longrightarrow> parse_from_handle_loop md toks (raw # rest) =
     parse_from_handle_loop (metadata (parse_lines md toks [raw])) (tokens (parse_lines md toks [raw])) rest"
  by (simp add: blank_def Let_def mk_TokenList_def split: option.splits)

lemma mk_TokenList_parse_lines:
  "mk_TokenList (tokens (parse_lines md toks ls)) (metadata (parse_lines md toks ls)) = parse_lines md toks ls"
  by (simp add: mk_TokenList_def)

lemma loop_sentences_from:
  "parse_from_handle_loop (metadata (parse_lines [] [] cur)) (tokens (parse_lines [] [] cur)) ls =
     map (parse_lines [] []) (sentences_from cur ls)"
proof (induction ls arbitrary: cur)
  case Nil
  show ?case
  proof (cases "cur = []")
    case True
    then show ?thesis by (simp add: mk_TokenList_def)
  next
    case False
    then show ?thesis using parse_lines_nonempty[OF False, of "[]" "[]"]
      by (simp add: mk_TokenList_parse_lines)
  qed
next
  case (Cons l ls)
  show ?case
  proof (cases "blank l")
    case True
    show ?thesis
    proof (cases "cur = []")
      case True
      then show ?thesis using \<open>blank l\<close> Cons.IH[of "[]"]
        by (simp add: loop_blank mk_TokenList_def del: parse_from_handle_loop.simps)
    next
      case False
      have e: "parse_from_handle_loop [] [] ls = map (parse_lines [] []) (sentences_from [] ls)"
        using Cons.IH[of "[]"] by (simp add: mk_TokenList_def)
      show ?thesis using \<open>blank l\<close> False parse_lines_nonempty[OF False, of "[]" "[]"] e
        by (simp add: loop_blank mk_TokenList_parse_lines del: parse_from_handle_loop.simps)
    qed
  next
    case False
    have "parse_lines [] [] (cur @ [l]) =
        parse_lines (metadata (parse_lines [] [] cur)) (tokens (parse_lines [] [] cur)) [l]"
      by (rule parse_lines_append)
    then show ?thesis using False Cons.IH[of "cur @ [l]"]
      by (simp add: loop_content del: parse_from_handle_loop.simps parse_lines.simps)
  qed
qed

lemma parse_from_handle_sentences:
  "parse_from_handle handle = map (parse_lines [] []) (sentences handle)"
  using loop_sentences_from[of "[]" handle]
  by (simp add: parse_from_handle_def sentences_def mk_TokenList_def)

lemma sentences_from_nonblank:
  "g \<in> set (sentences_from cur ls) \<Longrightarrow> \<forall>l\<in>set cur. \<not> blank l \<Longrightarrow> g \<noteq> [] \<and> (\<forall>l\<in>set g. \<not> blank l)"
proof (induction ls arbitrary: cur)
  case Nil
  then show ?case by (auto split: if_splits)
next
  case (Cons l ls)
  show ?case
  proof (cases "blank l")
    case True
    then show ?thesis using Cons.prems Cons.IH[of "[]"] by (auto split: if_splits)
  next
    case False
    then show ?thesis using Cons.prems Cons.IH[of "cur @ [l]"] by auto
  qed
qed

lemma concat_sentences_from:
  "concat (sentences_from cur ls) = cur @ filter (\<lambda>l. \<not> blank l) ls"
  by (induction ls arbitrary: cur) simp_all

lemma sentences_from_collapse:
  "after_blank \<longrightarrow> cur = [] \<Longrightarrow>
   sentences_from cur (collapse_from after_blank ls) = sentences_from cur ls"
proof (induction ls arbitrary: cur after_blank)
  case Nil
  show ?case by simp
next
  case (Cons l ls)
  show ?case
  proof (cases "blank l")
    case True
    then show ?thesis using Cons.prems Cons.IH[of True "[]"] by simp
  next
    case False
    then show ?thesis using Cons.IH[of False "cur @ [l]"] by simp
  qed
qed

lemma sentences_collapse: "sentences (collapse handle) = sentences handle"
  by (simp add: sentences_def collapse_def sentences_from_collapse)

lemma sentences_from_all_blank:
  "\<forall>l\<in>set ls. blank l \<Longrightarrow> sentences_from cur ls = (if cur = [] then [] else [cur])"
  by (induction ls arbitrary: cur) simp_all

lemma sentences_from_content:
  "\<forall>l\<in>set g. \<not> blank l \<Longrightarrow> sentences_from cur (g @ ls) = sentences_from (cur @ g) ls"
  by (induction g arbitrary: cur) simp_all

lemma sentences_from_separated:
  "blank sep \<Longrightarrow> \<forall>g\<in>set gs. g \<noteq> [] \<and> (\<forall>l\<in>set g. \<not> blank l) \<Longrightarrow>
   sentences_from [] (separated sep gs) = gs"
proof (induction gs)
  case Nil
  show ?case by simp
next
  case (Cons g gs)
  show ?case
  proof (cases gs)
    case Nil
    then show ?thesis using Cons.prems sentences_from_content[of g "[]" "[]"] by simp
  next
    case (Cons h hs)
    have "sentences_from [] (g @ sep # separated sep (h # hs)) = sentences_from g (sep # separated sep (h # hs))"
      using Cons.prems sentences_from_content[of g "[]" "sep # separated sep (h # hs)"] by simp
    then show ?thesis using Cons Cons.prems Cons.IH by simp
  qed
qed

lemma sentences_from_trailing_blank:
  "blank b \<Longrightarrow> sentences_from cur (ls @ [b]) = sentences_from cur ls"
  by (induction ls arbitrary: cur) simp_all

section \<open>The streaming assembler\<close>

text \<open>
  C9. A line source with no line, or with blank lines only, yields no Sentence Unit; the
  assembler has no failing branch.
\<close>

theorem empty_source_yields_nothing:
  "\<forall>l\<in>set handle. strip l = [] \<Longrightarrow> parse_from_handle handle = []"
  using sentences_from_all_blank[of handle "[]"]
  by (simp add: parse_from_handle_sentences sentences_def blank_def)

theorem empty_source_yields_nothing_witness:
  "parse_from_handle [] = [] \<and> parse_from_handle [[LF], py ''  '' @ [LF], [TAB, CR, LF]] = []"
proof -
  have h: "\<forall>l\<in>set [[LF], py ''  '' @ [LF], [TAB, CR, LF]]. strip l = []"
    by code_simp
  have e: "\<forall>l\<in>set ([] :: pystr list). strip l = []" by simp
  show ?thesis
    using empty_source_yields_nothing[OF e] empty_source_yields_nothing[OF h]
    by blast
qed

text \<open>
  C4. At a blank line the assembler yields the accumulated metadata and tokens as one
  Sentence Unit and goes on with both accumulators empty when one of them is not empty,
  and does nothing when both are empty. So a line source and the same source with
  duplicate separators collapsed (blank lines before any content dropped, a run of blank
  lines cut to one) yield the same Sentence Units.
\<close>

theorem blank_line_emits_or_skips:
  "(strip raw = [] \<longrightarrow>
      parse_from_handle_loop md toks (raw # rest) =
        (if toks \<noteq> [] \<or> md \<noteq> []
         then \<lparr>tokens = toks, metadata = md\<rparr> # parse_from_handle_loop [] [] rest
         else parse_from_handle_loop [] [] rest))
   \<and> parse_from_handle (collapse handle) = parse_from_handle handle"
  by (simp add: parse_from_handle_sentences sentences_collapse mk_TokenList_def)

theorem blank_line_emits_or_skips_witness:
  "parse_from_handle_loop [(py ''sent_id'', Some (py ''1''))] [[(py ''id'', py ''1'')]] [[LF], [LF], py ''2'' @ [LF]]
     = \<lparr>tokens = [[(py ''id'', py ''1'')]], metadata = [(py ''sent_id'', Some (py ''1''))]\<rparr>
         # parse_from_handle_loop [] [] [[LF], py ''2'' @ [LF]]
   \<and> parse_from_handle_loop [] [] [[LF], py ''2'' @ [LF]] = parse_from_handle_loop [] [] [py ''2'' @ [LF]]
   \<and> parse_from_handle [[LF], [LF], py ''1'' @ [LF], [LF], py '' '' @ [LF], [LF], py ''2'' @ [LF]]
        = parse_from_handle [py ''1'' @ [LF], [LF], py ''2'' @ [LF]]"
proof -
  have s: "strip [LF] = []" by code_simp
  have c: "collapse [[LF], [LF], py ''1'' @ [LF], [LF], py '' '' @ [LF], [LF], py ''2'' @ [LF]]
        = [py ''1'' @ [LF], [LF], py ''2'' @ [LF]]"
    by code_simp
  note t1 = blank_line_emits_or_skips[of "[LF]" "[(py ''sent_id'', Some (py ''1''))]" "[[(py ''id'', py ''1'')]]"
        "[[LF], py ''2'' @ [LF]]" "[[LF], [LF], py ''1'' @ [LF], [LF], py '' '' @ [LF], [LF], py ''2'' @ [LF]]"]
  note t2 = blank_line_emits_or_skips[of "[LF]" "[]" "[]" "[py ''2'' @ [LF]]" "[]"]
  have i1: "(if [[(py ''id'', py ''1'')]] \<noteq> [] \<or> [(py ''sent_id'', Some (py ''1''))] \<noteq> [] then (a :: TokenList list) else b) = a" for a b
    by simp
  have i2: "(if ([] :: token list) \<noteq> [] \<or> ([] :: (pystr, pystr option) dict) \<noteq> [] then (a :: TokenList list) else b) = b" for a b
    by simp
  have 1: "parse_from_handle_loop [(py ''sent_id'', Some (py ''1''))] [[(py ''id'', py ''1'')]] [[LF], [LF], py ''2'' @ [LF]]
     = \<lparr>tokens = [[(py ''id'', py ''1'')]], metadata = [(py ''sent_id'', Some (py ''1''))]\<rparr>
         # parse_from_handle_loop [] [] [[LF], py ''2'' @ [LF]]"
    using t1 s by (simp only: i1)
  have 2: "parse_from_handle_loop [] [] [[LF], py ''2'' @ [LF]] = parse_from_handle_loop [] [] [py ''2'' @ [LF]]"
    using t2 s by (simp only: i2)
  have 3: "parse_from_handle [[LF], [LF], py ''1'' @ [LF], [LF], py '' '' @ [LF], [LF], py ''2'' @ [LF]]
        = parse_from_handle [py ''1'' @ [LF], [LF], py ''2'' @ [LF]]"
    using t1 c by (simp only:)
  show ?thesis using 1 2 3 by blast
qed

lemma takeWhile_append_stop:
  "\<not> P x \<Longrightarrow> takeWhile P (xs @ x # ys) = takeWhile P xs"
  by (induction xs) simp_all

lemma sentences_from_last:
  "\<not> blank l \<Longrightarrow> \<forall>x\<in>set cur. \<not> blank x \<Longrightarrow>
   sentences_from cur (ls @ [l]) \<noteq> [] \<and>
   last (sentences_from cur (ls @ [l])) = rev (takeWhile (\<lambda>x. \<not> blank x) (rev (cur @ ls @ [l])))"
proof (induction ls arbitrary: cur)
  case Nil
  have "takeWhile (\<lambda>x. \<not> blank x) (rev cur) = rev cur"
    using Nil.prems by (intro takeWhile_eq_all_conv[THEN iffD2]) simp
  then have "rev (takeWhile (\<lambda>x. \<not> blank x) (rev cur)) = cur"
    by (simp only: rev_rev_ident)
  then show ?case using Nil.prems by (simp del: takeWhile_eq_all_conv)
next
  case (Cons x ls)
  show ?case
  proof (cases "blank x")
    case True
    have ih: "sentences_from [] (ls @ [l]) \<noteq> [] \<and>
        last (sentences_from [] (ls @ [l])) = rev (takeWhile (\<lambda>x. \<not> blank x) (rev (ls @ [l])))"
      using Cons.IH[of "[]"] Cons.prems by simp
    have "takeWhile (\<lambda>x. \<not> blank x) (rev (ls @ [l]) @ x # rev cur) = takeWhile (\<lambda>x. \<not> blank x) (rev (ls @ [l]))"
      using True by (intro takeWhile_append_stop) simp
    then show ?thesis using True ih by simp
  next
    case False
    then show ?thesis using Cons.IH[of "cur @ [x]"] Cons.prems by simp
  qed
qed

text \<open>
  C5. At the end of the input the assembler yields the accumulators as one last Sentence
  Unit when one of them is not empty. So a source whose last line is not blank yields a
  last unit, built from the lines after the last blank line, and a blank line at the end
  changes nothing; and N sentences (each with a line, none with a blank one) separated by
  single blank lines yield N units, the i-th built from the i-th sentence.
\<close>

theorem end_of_input_emits_last:
  "parse_from_handle_loop md toks [] =
     (if toks \<noteq> [] \<or> md \<noteq> [] then [\<lparr>tokens = toks, metadata = md\<rparr>] else [])
   \<and> (strip l \<noteq> [] \<longrightarrow>
        parse_from_handle (ls @ [l]) \<noteq> [] \<and>
        last (parse_from_handle (ls @ [l]))
          = parse_lines [] [] (rev (takeWhile (\<lambda>x. strip x \<noteq> []) (rev (ls @ [l])))))
   \<and> (strip b = [] \<longrightarrow> parse_from_handle (ls @ [b]) = parse_from_handle ls)
   \<and> (strip sep = [] \<and> (\<forall>g\<in>set gs. g \<noteq> [] \<and> (\<forall>x\<in>set g. strip x \<noteq> [])) \<longrightarrow>
        parse_from_handle (separated sep gs) = map (parse_lines [] []) gs \<and>
        length (parse_from_handle (separated sep gs)) = length gs)"
proof (intro conjI impI)
  show "parse_from_handle_loop md toks [] =
     (if toks \<noteq> [] \<or> md \<noteq> [] then [\<lparr>tokens = toks, metadata = md\<rparr>] else [])"
    by (simp add: mk_TokenList_def)
next
  assume "strip l \<noteq> []"
  then have nb: "\<not> blank l" by (simp add: blank_def)
  have s: "sentences_from [] (ls @ [l]) \<noteq> [] \<and>
      last (sentences_from [] (ls @ [l])) = rev (takeWhile (\<lambda>x. \<not> blank x) (rev ([] @ ls @ [l])))"
    by (rule sentences_from_last[OF nb]) simp
  show "parse_from_handle (ls @ [l]) \<noteq> []"
    using s by (simp add: parse_from_handle_sentences sentences_def)
  have "last (map (parse_lines [] []) (sentences_from [] (ls @ [l])))
      = parse_lines [] [] (last (sentences_from [] (ls @ [l])))"
    using s by (simp add: last_map)
  then show "last (parse_from_handle (ls @ [l]))
      = parse_lines [] [] (rev (takeWhile (\<lambda>x. strip x \<noteq> []) (rev (ls @ [l]))))"
    using s by (simp add: parse_from_handle_sentences sentences_def blank_def)
next
  assume "strip b = []"
  then show "parse_from_handle (ls @ [b]) = parse_from_handle ls"
    by (simp add: parse_from_handle_sentences sentences_def sentences_from_trailing_blank blank_def)
next
  assume a: "strip sep = [] \<and> (\<forall>g\<in>set gs. g \<noteq> [] \<and> (\<forall>x\<in>set g. strip x \<noteq> []))"
  then have "sentences_from [] (separated sep gs) = gs"
    by (intro sentences_from_separated) (simp_all add: blank_def)
  then show "parse_from_handle (separated sep gs) = map (parse_lines [] []) gs"
    by (simp add: parse_from_handle_sentences sentences_def)
  then show "length (parse_from_handle (separated sep gs)) = length gs"
    by simp
qed

theorem end_of_input_emits_last_witness:
  "parse_from_handle_loop [(py ''x'', None)] [[(py ''id'', py ''2'')]] []
     = [\<lparr>tokens = [[(py ''id'', py ''2'')]], metadata = [(py ''x'', None)]\<rparr>]
   \<and> last (parse_from_handle [py ''1'' @ [LF], [LF], py ''# x'' @ [LF], py ''2''])
     = \<lparr>tokens = [[(py ''id'', py ''2'')]], metadata = [(py ''x'', None)]\<rparr>
   \<and> parse_from_handle ([py ''1'' @ [LF], [LF], py ''# x'' @ [LF], py ''2''] @ [[LF]])
     = parse_from_handle [py ''1'' @ [LF], [LF], py ''# x'' @ [LF], py ''2'']
   \<and> length (parse_from_handle (separated [LF] [[py ''1'' @ [LF]], [py ''# x'' @ [LF], py ''2'' @ [LF]]])) = 2"
proof -
  note t = end_of_input_emits_last[of "[(py ''x'', None)]" "[[(py ''id'', py ''2'')]]" "py ''2''"
      "[py ''1'' @ [LF], [LF], py ''# x'' @ [LF]]" "[LF]" "[LF]" "[[py ''1'' @ [LF]], [py ''# x'' @ [LF], py ''2'' @ [LF]]]"]
  have h1: "strip (py ''2'') \<noteq> []" by code_simp
  have h2: "strip [LF] = []" by code_simp
  have h3: "strip [LF] = [] \<and> (\<forall>g\<in>set [[py ''1'' @ [LF]], [py ''# x'' @ [LF], py ''2'' @ [LF]]].
      g \<noteq> [] \<and> (\<forall>x\<in>set g. strip x \<noteq> []))"
    by code_simp
  have i: "(if [[(py ''id'', py ''2'')]] \<noteq> [] \<or> [(py ''x'', None :: pystr option)] \<noteq> [] then (a :: TokenList list) else b) = a" for a b
    by simp
  have v: "parse_lines [] [] (rev (takeWhile (\<lambda>x. strip x \<noteq> [])
        (rev [py ''1'' @ [LF], [LF], py ''# x'' @ [LF], py ''2''])))
      = \<lparr>tokens = [[(py ''id'', py ''2'')]], metadata = [(py ''x'', None)]\<rparr>"
    by code_simp
  have a: "[py ''1'' @ [LF], [LF], py ''# x'' @ [LF]] @ [py ''2''] = [py ''1'' @ [LF], [LF], py ''# x'' @ [LF], py ''2'']"
    by simp
  have n: "length [[py ''1'' @ [LF]], [py ''# x'' @ [LF], py ''2'' @ [LF]]] = 2" by simp
  have 1: "parse_from_handle_loop [(py ''x'', None)] [[(py ''id'', py ''2'')]] []
     = [\<lparr>tokens = [[(py ''id'', py ''2'')]], metadata = [(py ''x'', None)]\<rparr>]"
  proof -
    have "parse_from_handle_loop [(py ''x'', None)] [[(py ''id'', py ''2'')]] [] =
        (if [[(py ''id'', py ''2'')]] \<noteq> [] \<or> [(py ''x'', None :: pystr option)] \<noteq> []
         then [\<lparr>tokens = [[(py ''id'', py ''2'')]], metadata = [(py ''x'', None)]\<rparr>] else [])"
      by (rule t[THEN conjunct1])
    then show ?thesis by (simp only: i)
  qed
  have 2: "last (parse_from_handle [py ''1'' @ [LF], [LF], py ''# x'' @ [LF], py ''2''])
     = \<lparr>tokens = [[(py ''id'', py ''2'')]], metadata = [(py ''x'', None)]\<rparr>"
  proof -
    have "last (parse_from_handle ([py ''1'' @ [LF], [LF], py ''# x'' @ [LF]] @ [py ''2'']))
        = parse_lines [] [] (rev (takeWhile (\<lambda>x. strip x \<noteq> [])
            (rev ([py ''1'' @ [LF], [LF], py ''# x'' @ [LF]] @ [py ''2'']))))"
      by (rule t[THEN conjunct2, THEN conjunct1, THEN mp, OF h1, THEN conjunct2])
    then show ?thesis by (simp only: a v)
  qed
  have 3: "parse_from_handle ([py ''1'' @ [LF], [LF], py ''# x'' @ [LF], py ''2''] @ [[LF]])
     = parse_from_handle [py ''1'' @ [LF], [LF], py ''# x'' @ [LF], py ''2'']"
    by (rule end_of_input_emits_last[of "[]" "[]" "[]" "[py ''1'' @ [LF], [LF], py ''# x'' @ [LF], py ''2'']"
          "[LF]" "[]" "[]", THEN conjunct2, THEN conjunct2, THEN conjunct1, THEN mp, OF h2])
  have 4: "length (parse_from_handle (separated [LF] [[py ''1'' @ [LF]], [py ''# x'' @ [LF], py ''2'' @ [LF]]])) = 2"
  proof -
    have "length (parse_from_handle (separated [LF] [[py ''1'' @ [LF]], [py ''# x'' @ [LF], py ''2'' @ [LF]]]))
        = length [[py ''1'' @ [LF]], [py ''# x'' @ [LF], py ''2'' @ [LF]]]"
      by (rule t[THEN conjunct2, THEN conjunct2, THEN conjunct2, THEN mp, OF h3, THEN conjunct2])
    then show ?thesis by (simp only: n)
  qed
  show ?thesis using 1 2 3 4 by (intro conjI)
qed

section \<open>Order of metadata and tokens\<close>

lemma parse_lines_tokens:
  "tokens (parse_lines md toks ls) = toks @ map parse_token (token_lines ls)"
proof (induction ls arbitrary: md toks)
  case Nil
  show ?case by (simp add: token_lines_def mk_TokenList_def)
next
  case (Cons l ls)
  show ?case
  proof (cases "maybe_parse_metadata (strip l)")
    case None
    then show ?thesis using Cons.IH[of md "toks @ [parse_token (strip l)]"]
      by (simp add: token_lines_def Let_def)
  next
    case (Some kv)
    obtain k v where "kv = (k, v)" by (cases kv)
    then show ?thesis using Some Cons.IH[of "AList.update k v md" toks]
      by (simp add: token_lines_def Let_def)
  qed
qed

lemma parse_lines_metadata:
  "metadata (parse_lines md toks ls) =
     foldl (\<lambda>d (k, v). AList.update k v d) md (metadata_entries ls)"
proof (induction ls arbitrary: md toks)
  case Nil
  show ?case by (simp add: metadata_entries_def mk_TokenList_def List.map_filter_simps)
next
  case (Cons l ls)
  show ?case
  proof (cases "maybe_parse_metadata (strip l)")
    case None
    then show ?thesis using Cons.IH[of md "toks @ [parse_token (strip l)]"]
      by (simp add: metadata_entries_def Let_def List.map_filter_simps)
  next
    case (Some kv)
    obtain k v where "kv = (k, v)" by (cases kv)
    then show ?thesis using Some Cons.IH[of "AList.update k v md" toks]
      by (simp add: metadata_entries_def Let_def List.map_filter_simps)
  qed
qed

lemma set_first_seen [simp]: "set (first_seen ks) = set ks"
  by (simp add: first_seen_def)

lemma first_seen_snoc:
  "first_seen (ks @ [k]) = (if k \<in> set ks then first_seen ks else first_seen ks @ [k])"
  by (simp add: first_seen_def)

lemma first_seen_distinct: "distinct ks \<Longrightarrow> first_seen ks = ks"
  by (simp add: first_seen_def distinct_remdups_id)

lemma keys_foldl_update:
  "map fst (foldl (\<lambda>d (k, v). AList.update k v d) md kvs) =
     (if kvs = [] then map fst md else first_seen (map fst md @ map fst kvs))" if "distinct (map fst md)"
  using that
proof (induction kvs rule: rev_induct)
  case Nil
  show ?case by simp
next
  case (snoc kv kvs)
  obtain k v where kv: "kv = (k, v)" by (cases kv)
  have fs: "map fst (foldl (\<lambda>d (k, v). AList.update k v d) md kvs) = first_seen (map fst md @ map fst kvs)"
    using snoc by (simp add: first_seen_distinct)
  have "first_seen (map fst md @ map fst (kvs @ [kv])) = first_seen ((map fst md @ map fst kvs) @ [k])"
    by (simp add: kv)
  also have "\<dots> = (if k \<in> set (map fst md @ map fst kvs) then first_seen (map fst md @ map fst kvs)
      else first_seen (map fst md @ map fst kvs) @ [k])"
    by (rule first_seen_snoc)
  finally show ?case
    using fs by (simp add: kv AList.update_keys image_Un)
qed

lemma map_of_foldl_update:
  "map_of (foldl (\<lambda>d (k, v). AList.update k v d) md kvs) = map_of (rev kvs @ md)"
proof (induction kvs rule: rev_induct)
  case Nil
  show ?case by simp
next
  case (snoc kv kvs)
  obtain k v where kv: "kv = (k, v)" by (cases kv)
  show ?case using snoc by (simp add: kv AList.update_conv')
qed

text \<open>
  C7. In the unit either parser builds from a list of lines, the metadata keys stand in the
  order in which each was first written, every key has the value written last, and the
  tokens are the token lines in line order; a write to a key already recorded leaves the
  keys as they are. The whole-buffer parser builds its unit from the lines of the buffer,
  the streaming one builds one unit from each sentence, in the order of the sentences,
  which are the non-blank lines of the source in their order.
\<close>

theorem source_order_preserved:
  "parse_from_string buffer = parse_lines [] [] (splitlines buffer)
   \<and> parse_from_handle handle = map (parse_lines [] []) (sentences handle)
   \<and> concat (sentences handle) = filter (\<lambda>l. strip l \<noteq> []) handle
   \<and> tokens (parse_lines [] [] ls) = map parse_token (token_lines ls)
   \<and> map fst (metadata (parse_lines [] [] ls)) = first_seen (map fst (metadata_entries ls))
   \<and> map_of (metadata (parse_lines [] [] ls)) = map_of (rev (metadata_entries ls))
   \<and> (k \<in> fst ` set md \<longrightarrow> maybe_parse_metadata (strip raw) = Some (k, v) \<longrightarrow>
        parse_lines md toks (raw # rest) = parse_lines (AList.update k v md) toks rest
        \<and> map fst (AList.update k v md) = map fst md
        \<and> map_of (AList.update k v md) k = Some v)"
proof (intro conjI impI)
  show "parse_from_string buffer = parse_lines [] [] (splitlines buffer)"
    by (simp add: parse_from_string_def)
  show "parse_from_handle handle = map (parse_lines [] []) (sentences handle)"
    by (rule parse_from_handle_sentences)
  show "concat (sentences handle) = filter (\<lambda>l. strip l \<noteq> []) handle"
    by (simp add: sentences_def concat_sentences_from blank_def)
  show "tokens (parse_lines [] [] ls) = map parse_token (token_lines ls)"
    by (simp add: parse_lines_tokens)
  show "map fst (metadata (parse_lines [] [] ls)) = first_seen (map fst (metadata_entries ls))"
    using keys_foldl_update[of "[]" "metadata_entries ls"]
    by (simp add: parse_lines_metadata first_seen_def)
  show "map_of (metadata (parse_lines [] [] ls)) = map_of (rev (metadata_entries ls))"
    by (simp add: parse_lines_metadata map_of_foldl_update)
next
  assume "k \<in> fst ` set md" and m: "maybe_parse_metadata (strip raw) = Some (k, v)"
  then show "map fst (AList.update k v md) = map fst md"
    by (simp add: AList.update_keys)
  show "map_of (AList.update k v md) k = Some v"
    by (simp add: AList.update_conv')
  show "parse_lines md toks (raw # rest) = parse_lines (AList.update k v md) toks rest"
    using m by (simp add: Let_def)
qed

theorem source_order_preserved_witness:
  "parse_from_string (py ''# a = 1'' @ [LF] @ py ''1'' @ [LF] @ py ''# b'' @ [LF] @ py ''# a = 2'' @ [LF] @ py ''2'')
     = \<lparr>tokens = [[(py ''id'', py ''1'')], [(py ''id'', py ''2'')]], metadata = [(py ''a'', Some (py ''2'')), (py ''b'', None)]\<rparr>
   \<and> map fst (metadata (parse_lines [] [] [py ''# a = 1'', py ''1'', py ''# b'', py ''# a = 2'', py ''2''])) = [py ''a'', py ''b'']
   \<and> parse_lines [(py ''a'', Some (py ''1'')), (py ''b'', None)] [] (py ''# a = 2'' # [])
     = parse_lines [(py ''a'', Some (py ''2'')), (py ''b'', None)] [] []"
proof -
  note t = source_order_preserved[of
      "py ''# a = 1'' @ [LF] @ py ''1'' @ [LF] @ py ''# b'' @ [LF] @ py ''# a = 2'' @ [LF] @ py ''2''"
      "[]" "[py ''# a = 1'', py ''1'', py ''# b'', py ''# a = 2'', py ''2'']" "py ''a''"
      "[(py ''a'', Some (py ''1'')), (py ''b'', None)]" "py ''# a = 2''" "Some (py ''2'')" "[]" "[]"]
  have s: "parse_lines [] [] (splitlines (py ''# a = 1'' @ [LF] @ py ''1'' @ [LF] @ py ''# b'' @ [LF] @ py ''# a = 2'' @ [LF] @ py ''2''))
     = \<lparr>tokens = [[(py ''id'', py ''1'')], [(py ''id'', py ''2'')]], metadata = [(py ''a'', Some (py ''2'')), (py ''b'', None)]\<rparr>"
    by code_simp
  have f: "first_seen (map fst (metadata_entries [py ''# a = 1'', py ''1'', py ''# b'', py ''# a = 2'', py ''2''])) = [py ''a'', py ''b'']"
    by code_simp
  have h1: "py ''a'' \<in> fst ` set [(py ''a'', Some (py ''1'')), (py ''b'', None :: pystr option)]" by simp
  have h2: "maybe_parse_metadata (strip (py ''# a = 2'')) = Some (py ''a'', Some (py ''2''))" by code_simp
  have u: "AList.update (py ''a'') (Some (py ''2'')) [(py ''a'', Some (py ''1'')), (py ''b'', None)] = [(py ''a'', Some (py ''2'')), (py ''b'', None)]"
    by simp
  have 1: "parse_from_string (py ''# a = 1'' @ [LF] @ py ''1'' @ [LF] @ py ''# b'' @ [LF] @ py ''# a = 2'' @ [LF] @ py ''2'')
     = \<lparr>tokens = [[(py ''id'', py ''1'')], [(py ''id'', py ''2'')]], metadata = [(py ''a'', Some (py ''2'')), (py ''b'', None)]\<rparr>"
    using t[THEN conjunct1] by (simp only: s)
  have 2: "map fst (metadata (parse_lines [] [] [py ''# a = 1'', py ''1'', py ''# b'', py ''# a = 2'', py ''2''])) = [py ''a'', py ''b'']"
    using t[THEN conjunct2, THEN conjunct2, THEN conjunct2, THEN conjunct2, THEN conjunct1] by (simp only: f)
  have 3: "parse_lines [(py ''a'', Some (py ''1'')), (py ''b'', None)] [] (py ''# a = 2'' # [])
     = parse_lines [(py ''a'', Some (py ''2'')), (py ''b'', None)] [] []"
    using t[THEN conjunct2, THEN conjunct2, THEN conjunct2, THEN conjunct2, THEN conjunct2, THEN conjunct2,
        THEN mp, OF h1, THEN mp, OF h2, THEN conjunct1] by (simp only: u)
  show ?thesis using 1 2 3 by (intro conjI)
qed

section \<open>Token lines\<close>

text \<open>
  C3. A token line is cut at its tab characters (the cells have no tab, and joined by tabs
  they are the line again), and the cells are paired with the ten field names in schema
  order: with N cells, N below ten, only the first N fields are set, and cells beyond the
  tenth are dropped. The line of the two cells 1 and The gives a token with the fields id
  and form only.
\<close>

theorem parse_token_positional:
  "str_join [TAB] (str_split TAB line) = line
   \<and> (\<forall>cell\<in>set (str_split TAB line). TAB \<notin> set cell)
   \<and> parse_token line = zip fieldnames (str_split TAB line)
   \<and> map fst (parse_token line) = take (length (str_split TAB line)) fieldnames
   \<and> map snd (parse_token line) = take 10 (str_split TAB line)
   \<and> parse_token (py ''1'' @ [TAB] @ py ''The'') = [(py ''id'', py ''1''), (py ''form'', py ''The'')]"
proof (intro conjI)
  show "str_join [TAB] (str_split TAB line) = line"
    by (rule str_join_split)
  show "\<forall>cell\<in>set (str_split TAB line). TAB \<notin> set cell"
    using str_split_no_sep by blast
  show "parse_token line = zip fieldnames (str_split TAB line)"
    by (rule parse_token_zip)
  show "map fst (parse_token line) = take (length (str_split TAB line)) fieldnames"
    by (simp add: parse_token_zip map_fst_zip_take min_def)
  show "map snd (parse_token line) = take 10 (str_split TAB line)"
    by (simp add: parse_token_zip map_snd_zip_take length_fieldnames min_def)
  show "parse_token (py ''1'' @ [TAB] @ py ''The'') = [(py ''id'', py ''1''), (py ''form'', py ''The'')]"
    by (simp add: parse_token_zip fieldnames_def)
qed

theorem parse_token_positional_witness:
  "map snd (parse_token (py ''1'' @ [TAB] @ py ''The'')) = [py ''1'', py ''The'']
   \<and> map fst (parse_token (py ''1'' @ [TAB] @ py ''The'')) = [py ''id'', py ''form'']
   \<and> map snd (parse_token (py ''a'' @ [TAB] @ py ''b'' @ [TAB] @ py ''c'' @ [TAB] @ py ''d'' @ [TAB] @ py ''e'' @ [TAB]
        @ py ''f'' @ [TAB] @ py ''g'' @ [TAB] @ py ''h'' @ [TAB] @ py ''i'' @ [TAB] @ py ''j'' @ [TAB] @ py ''k''))
     = [py ''a'', py ''b'', py ''c'', py ''d'', py ''e'', py ''f'', py ''g'', py ''h'', py ''i'', py ''j'']"
proof -
  note t = parse_token_positional[of "py ''1'' @ [TAB] @ py ''The''"]
  note t' = parse_token_positional[of "py ''a'' @ [TAB] @ py ''b'' @ [TAB] @ py ''c'' @ [TAB] @ py ''d'' @ [TAB] @ py ''e'' @ [TAB]
        @ py ''f'' @ [TAB] @ py ''g'' @ [TAB] @ py ''h'' @ [TAB] @ py ''i'' @ [TAB] @ py ''j'' @ [TAB] @ py ''k''"]
  have s: "take 10 (str_split TAB (py ''1'' @ [TAB] @ py ''The'')) = [py ''1'', py ''The'']" by code_simp
  have f: "take (length (str_split TAB (py ''1'' @ [TAB] @ py ''The''))) fieldnames = [py ''id'', py ''form'']"
    by code_simp
  have s': "take 10 (str_split TAB (py ''a'' @ [TAB] @ py ''b'' @ [TAB] @ py ''c'' @ [TAB] @ py ''d'' @ [TAB] @ py ''e'' @ [TAB]
        @ py ''f'' @ [TAB] @ py ''g'' @ [TAB] @ py ''h'' @ [TAB] @ py ''i'' @ [TAB] @ py ''j'' @ [TAB] @ py ''k''))
      = [py ''a'', py ''b'', py ''c'', py ''d'', py ''e'', py ''f'', py ''g'', py ''h'', py ''i'', py ''j'']"
    by code_simp
  have 1: "map snd (parse_token (py ''1'' @ [TAB] @ py ''The'')) = [py ''1'', py ''The'']"
    using t[THEN conjunct2, THEN conjunct2, THEN conjunct2, THEN conjunct2, THEN conjunct1]
    by (simp only: s)
  have 2: "map fst (parse_token (py ''1'' @ [TAB] @ py ''The'')) = [py ''id'', py ''form'']"
    using t[THEN conjunct2, THEN conjunct2, THEN conjunct2, THEN conjunct1]
    by (simp only: f)
  have 3: "map snd (parse_token (py ''a'' @ [TAB] @ py ''b'' @ [TAB] @ py ''c'' @ [TAB] @ py ''d'' @ [TAB] @ py ''e'' @ [TAB]
        @ py ''f'' @ [TAB] @ py ''g'' @ [TAB] @ py ''h'' @ [TAB] @ py ''i'' @ [TAB] @ py ''j'' @ [TAB] @ py ''k''))
     = [py ''a'', py ''b'', py ''c'', py ''d'', py ''e'', py ''f'', py ''g'', py ''h'', py ''i'', py ''j'']"
    using t'[THEN conjunct2, THEN conjunct2, THEN conjunct2, THEN conjunct2, THEN conjunct1]
    by (simp only: s')
  show ?thesis using 1 2 3 by (intro conjI)
qed

section \<open>The whole-buffer parser\<close>

lemma maybe_parse_metadata_Nil [simp]: "maybe_parse_metadata [] = None"
  by (simp add: maybe_parse_metadata_def)

lemma parse_token_Nil: "parse_token [] = [(py ''id'', [])]"
  by (simp add: parse_token_zip fieldnames_def)

lemma parse_lines_all_blank:
  "\<forall>l\<in>set ls. strip l = [] \<Longrightarrow>
   parse_lines md toks ls = \<lparr>tokens = toks @ replicate (length ls) [(py ''id'', [])], metadata = md\<rparr>"
proof (induction ls arbitrary: toks)
  case Nil
  show ?case by (simp add: mk_TokenList_def)
next
  case (Cons l ls)
  have "toks @ [(py ''id'', [])] # replicate (length ls) [(py ''id'', [])]
      = (toks @ [[(py ''id'', [])]]) @ replicate (length ls) [(py ''id'', [])]"
    by simp
  then show ?case using Cons.prems Cons.IH[of "toks @ [[(py ''id'', [])]]"]
    by (simp add: parse_token_Nil)
qed

text \<open>
  C10. For the whole-buffer parser a line that strips to nothing is a token line like any
  other: it adds the token whose only field is id, with the empty string. A buffer of n
  such lines gives one unit of n such tokens. The empty buffer has no line and gives the
  unit with no token and no metadata.
\<close>

theorem blank_line_is_a_token:
  "(strip raw = [] \<longrightarrow>
      parse_lines md toks (raw # rest) = parse_lines md (toks @ [[(py ''id'', [])]]) rest)
   \<and> ((\<forall>l\<in>set (splitlines buffer). strip l = []) \<longrightarrow>
        parse_from_string buffer
          = \<lparr>tokens = replicate (length (splitlines buffer)) [(py ''id'', [])], metadata = []\<rparr>)
   \<and> parse_from_string [] = \<lparr>tokens = [], metadata = []\<rparr>"
proof (intro conjI impI)
  assume "strip raw = []"
  then show "parse_lines md toks (raw # rest) = parse_lines md (toks @ [[(py ''id'', [])]]) rest"
    by (simp add: parse_token_Nil)
next
  assume "\<forall>l\<in>set (splitlines buffer). strip l = []"
  then show "parse_from_string buffer
      = \<lparr>tokens = replicate (length (splitlines buffer)) [(py ''id'', [])], metadata = []\<rparr>"
    using parse_lines_all_blank[of "splitlines buffer" "[]" "[]"]
    by (simp add: parse_from_string_def)
next
  show "parse_from_string [] = \<lparr>tokens = [], metadata = []\<rparr>"
    by (simp add: parse_from_string_def splitlines_def mk_TokenList_def)
qed

theorem blank_line_is_a_token_witness:
  "parse_lines [] [[(py ''id'', py ''1'')]] ([] # [py ''2''])
     = parse_lines [] ([[(py ''id'', py ''1'')]] @ [[(py ''id'', [])]]) [py ''2'']
   \<and> parse_from_string ([LF] @ py '' '' @ [LF])
     = \<lparr>tokens = [[(py ''id'', [])], [(py ''id'', [])]], metadata = []\<rparr>"
proof -
  note t = blank_line_is_a_token[of "[]" "[]" "[[(py ''id'', py ''1'')]]" "[py ''2'']" "[LF] @ py '' '' @ [LF]"]
  have h1: "strip [] = []" by simp
  have h2: "\<forall>l\<in>set (splitlines ([LF] @ py '' '' @ [LF])). strip l = []" by code_simp
  have r: "replicate (length (splitlines ([LF] @ py '' '' @ [LF]))) [(py ''id'', [])]
      = [[(py ''id'', [] :: pystr)], [(py ''id'', [])]]"
    by code_simp
  have 1: "parse_lines [] [[(py ''id'', py ''1'')]] ([] # [py ''2''])
     = parse_lines [] ([[(py ''id'', py ''1'')]] @ [[(py ''id'', [])]]) [py ''2'']"
    by (rule t[THEN conjunct1, THEN mp, OF h1])
  have 2: "parse_from_string ([LF] @ py '' '' @ [LF])
     = \<lparr>tokens = [[(py ''id'', [])], [(py ''id'', [])]], metadata = []\<rparr>"
    using t[THEN conjunct2, THEN conjunct1, THEN mp, OF h2] by (simp only: r)
  show ?thesis using 1 2 by (intro conjI)
qed

section \<open>The serializer\<close>


lemma length_token_cells: "length (token_cells tok) = 10"
  by (simp add: token_cells_def length_fieldnames)

lemma str_join_nonempty: "2 \<le> length xs \<Longrightarrow> sep \<noteq> [] \<Longrightarrow> str_join sep xs \<noteq> []"
proof (cases xs)
  case Nil
  assume "2 \<le> length xs" then show ?thesis using Nil by simp
next
  case (Cons x ys)
  assume "2 \<le> length xs" "sep \<noteq> []"
  then show ?thesis using Cons by (cases ys) simp_all
qed

lemma token_line_nonempty: "token_line tok \<noteq> []"
  by (simp add: token_line_def str_join_nonempty length_token_cells)




lemma str_join_no_sep:
  "\<forall>x\<in>set xs. c \<notin> set x \<Longrightarrow> c \<notin> set sep \<Longrightarrow> c \<notin> set (str_join sep xs)"
  by (induction sep xs rule: str_join.induct) auto

lemma line_buf_free_of:
  assumes "unit_free_of c u" "c \<noteq> HASH" "c \<noteq> SPACE" "c \<noteq> EQUALS" "c \<noteq> TAB"
  shows "\<forall>l\<in>set (line_buf u). c \<notin> set l"
proof
  fix l assume "l \<in> set (line_buf u)"
  then consider kv where "kv \<in> set (metadata u)" "l = metadata_line kv"
    | tok where "tok \<in> set (tokens u)" "l = token_line tok"
    by (auto simp: line_buf_def)
  then show "c \<notin> set l"
  proof cases
    case 1
    obtain k v where kv: "kv = (k, v)" by (cases kv)
    have "c \<notin> set k \<and> (case v of None \<Rightarrow> True | Some s \<Rightarrow> c \<notin> set s)"
      using assms(1) 1(1) kv by (auto simp: unit_free_of_def list_all_iff)
    then show ?thesis
      using 1(2) kv assms(2-4) by (auto simp: metadata_line_def split: option.splits)
  next
    case 2
    have "\<forall>x\<in>set (token_cells tok). c \<notin> set x"
      using assms(1) 2(1) by (auto simp: unit_free_of_def list_all_iff)
    then show ?thesis
      using 2(2) assms(5) str_join_no_sep[of "token_cells tok" c "[TAB]"] by (simp add: token_line_def)
  qed
qed

text \<open>
  C2, as the code has it. The serializer writes one line for each metadata entry, in the
  order of the entries and before the token lines: the line is # key = value when the
  value is present and not the empty string, and # key when the value is absent or the
  empty string. Parsing the lines # newpar and # sent_id = 1 followed by a token line gives
  the metadata newpar without a value and then sent_id with the value 1, and serializing
  the result gives the lines # newpar and # sent_id = 1 again.
\<close>

theorem metadata_lines_rendered:
  "length (line_buf u) = length (metadata u) + length (tokens u)
   \<and> (\<forall>i<length (metadata u).
        line_buf u ! i =
          (case snd (metadata u ! i) of
             None \<Rightarrow> py ''# '' @ fst (metadata u ! i)
           | Some v \<Rightarrow> if v = [] then py ''# '' @ fst (metadata u ! i)
                       else py ''# '' @ fst (metadata u ! i) @ py '' = '' @ v))
   \<and> serialize u = str_join [LF] (line_buf u) @ [LF]
   \<and> metadata (parse_from_string (py ''# newpar'' @ [LF] @ py ''# sent_id = 1'' @ [LF]
        @ py ''1'' @ [TAB] @ py ''The'' @ [TAB] @ py ''the'' @ [TAB] @ py ''DET'' @ [TAB] @ py ''DT'' @ [TAB] @ py ''_''
        @ [TAB] @ py ''2'' @ [TAB] @ py ''det'' @ [TAB] @ py ''_'' @ [TAB] @ py ''_'' @ [LF]))
     = [(py ''newpar'', None), (py ''sent_id'', Some (py ''1''))]
   \<and> take 2 (line_buf (parse_from_string (py ''# newpar'' @ [LF] @ py ''# sent_id = 1'' @ [LF]
        @ py ''1'' @ [TAB] @ py ''The'' @ [TAB] @ py ''the'' @ [TAB] @ py ''DET'' @ [TAB] @ py ''DT'' @ [TAB] @ py ''_''
        @ [TAB] @ py ''2'' @ [TAB] @ py ''det'' @ [TAB] @ py ''_'' @ [TAB] @ py ''_'' @ [LF])))
     = [py ''# newpar'', py ''# sent_id = 1'']"
proof (intro conjI allI impI)
  show "length (line_buf u) = length (metadata u) + length (tokens u)"
    by (simp add: line_buf_def)
  show "serialize u = str_join [LF] (line_buf u) @ [LF]"
    by (simp add: serialize_def)
  show "metadata (parse_from_string (py ''# newpar'' @ [LF] @ py ''# sent_id = 1'' @ [LF]
        @ py ''1'' @ [TAB] @ py ''The'' @ [TAB] @ py ''the'' @ [TAB] @ py ''DET'' @ [TAB] @ py ''DT'' @ [TAB] @ py ''_''
        @ [TAB] @ py ''2'' @ [TAB] @ py ''det'' @ [TAB] @ py ''_'' @ [TAB] @ py ''_'' @ [LF]))
     = [(py ''newpar'', None), (py ''sent_id'', Some (py ''1''))]"
    by code_simp
  show "take 2 (line_buf (parse_from_string (py ''# newpar'' @ [LF] @ py ''# sent_id = 1'' @ [LF]
        @ py ''1'' @ [TAB] @ py ''The'' @ [TAB] @ py ''the'' @ [TAB] @ py ''DET'' @ [TAB] @ py ''DT'' @ [TAB] @ py ''_''
        @ [TAB] @ py ''2'' @ [TAB] @ py ''det'' @ [TAB] @ py ''_'' @ [TAB] @ py ''_'' @ [LF])))
     = [py ''# newpar'', py ''# sent_id = 1'']"
    by code_simp
next
  fix i assume i: "i < length (metadata u)"
  obtain k v where kv: "metadata u ! i = (k, v)" by (cases "metadata u ! i")
  have "line_buf u ! i = metadata_line (metadata u ! i)"
    using i by (simp add: line_buf_def nth_append)
  then show "line_buf u ! i =
      (case snd (metadata u ! i) of
         None \<Rightarrow> py ''# '' @ fst (metadata u ! i)
       | Some v \<Rightarrow> if v = [] then py ''# '' @ fst (metadata u ! i)
                   else py ''# '' @ fst (metadata u ! i) @ py '' = '' @ v)"
    by (simp add: kv metadata_line_def split: option.splits)
qed

theorem metadata_lines_rendered_witness:
  "line_buf \<lparr>tokens = [], metadata = [(py ''newpar'', None), (py ''sent_id'', Some (py ''1'')), (py ''text'', Some [])]\<rparr> ! 0
     = py ''# newpar''
   \<and> line_buf \<lparr>tokens = [], metadata = [(py ''newpar'', None), (py ''sent_id'', Some (py ''1'')), (py ''text'', Some [])]\<rparr> ! 1
     = py ''# sent_id = 1''
   \<and> line_buf \<lparr>tokens = [], metadata = [(py ''newpar'', None), (py ''sent_id'', Some (py ''1'')), (py ''text'', Some [])]\<rparr> ! 2
     = py ''# text''"
proof -
  let ?u = "\<lparr>tokens = [], metadata = [(py ''newpar'', None), (py ''sent_id'', Some (py ''1'')), (py ''text'', Some [])]\<rparr>"
  note t = metadata_lines_rendered[of ?u, THEN conjunct2, THEN conjunct1, rule_format]
  have 0: "line_buf ?u ! 0 = py ''# newpar''" using t[of 0] by simp
  have 1: "line_buf ?u ! 1 = py ''# sent_id = 1''" using t[of 1] by simp
  have 2: "line_buf ?u ! 2 = py ''# text''" using t[of 2] by simp
  show ?thesis using 0 1 2 by (intro conjI)
qed

text \<open>
  The claim C2 as it is written fails on a value that is present and is the empty string:
  the line is # k, not # k = followed by the value.
\<close>

theorem empty_value_rendered_as_flag:
  "serialize \<lparr>tokens = [], metadata = [(py ''k'', Some [])]\<rparr> = py ''# k'' @ [LF]
   \<and> serialize \<lparr>tokens = [], metadata = [(py ''k'', Some [])]\<rparr> \<noteq> py ''# k = '' @ [] @ [LF]"
  by code_simp

lemma last_str_join:
  "xs \<noteq> [] \<Longrightarrow> last xs \<noteq> [] \<Longrightarrow> str_join sep xs \<noteq> [] \<and> last (str_join sep xs) = last (last xs)"
proof (induction xs)
  case Nil
  then show ?case by simp
next
  case (Cons x xs)
  then show ?case by (cases xs) auto
qed




section \<open>The matcher and the pattern\<close>









section \<open>The round trip\<close>

subsection \<open>Lines of a serialized text\<close>

lemma splitlines_from_line:
  "\<forall>c\<in>set l. \<not> is_linebreak c \<Longrightarrow>
   splitlines_from cur (l @ LF # rest) = (cur @ l) # splitlines_from [] rest"
proof (induction l arbitrary: cur)
  case Nil
  show ?case by (simp add: is_linebreak_def linebreaks_def)
next
  case (Cons c l)
  have "c \<noteq> CR" "\<not> is_linebreak c"
    using Cons.prems by (auto simp: is_linebreak_def linebreaks_def)
  then show ?case using Cons.IH[of "cur @ [c]"] Cons.prems by simp
qed

lemma splitlines_join:
  "ls \<noteq> [] \<Longrightarrow> \<forall>l\<in>set ls. \<forall>c\<in>set l. \<not> is_linebreak c \<Longrightarrow>
   splitlines (str_join [LF] ls @ [LF]) = ls"
proof (induction ls)
  case Nil
  then show ?case by simp
next
  case (Cons x xs)
  show ?case
  proof (cases xs)
    case Nil
    then show ?thesis
      using Cons.prems splitlines_from_line[of x "[]" "[]"] by (simp add: splitlines_def)
  next
    case (Cons y ys)
    have "splitlines_from [] (x @ LF # (str_join [LF] xs @ [LF])) = x # splitlines_from [] (str_join [LF] xs @ [LF])"
      using Cons.prems splitlines_from_line[of x "[]" "str_join [LF] xs @ [LF]"] by simp
    then show ?thesis using Cons Cons.prems Cons.IH by (simp add: splitlines_def)
  qed
qed

subsection \<open>Metadata lines\<close>

lemma no_separator_tl: "no_separator (c # r) \<Longrightarrow> no_separator r"
proof (cases r)
  case Nil
  then show ?thesis by simp
next
  case (Cons d r')
  assume "no_separator (c # r)"
  then show ?thesis using Cons by (cases r') simp_all
qed

lemma no_separator_drop: "no_separator k \<Longrightarrow> no_separator (drop n k)"
proof (induction n arbitrary: k)
  case 0
  then show ?case by simp
next
  case (Suc n)
  show ?case
  proof (cases k)
    case Nil
    then show ?thesis by simp
  next
    case (Cons c r)
    then show ?thesis using Suc.prems Suc.IH[of r] no_separator_tl[of c r] by simp
  qed
qed

lemma match_value_no_separator:
  "no_separator t \<Longrightarrow> match_value t = None"
  unfolding match_value_def
proof (induction t)
  case Nil
  show ?case by simp
next
  case (Cons c t)
  show ?case
  proof (cases "is_space c")
    case False
    then show ?thesis by simp
  next
    case True
    have ih: "greedy_plus is_space
        (\<lambda>s1. case s1 of [] \<Rightarrow> None
           | c # s2 \<Rightarrow> if c = EQUALS
               then greedy_plus is_space (greedy_star dot (\<lambda>v rest. at_end v rest) []) s2 else None)
        t = None"
      using Cons.IH Cons.prems no_separator_tl[of c t] by simp
    have k: "(case t of [] \<Rightarrow> None
           | c # s2 \<Rightarrow> if c = EQUALS
               then greedy_plus is_space (greedy_star dot (\<lambda>v rest. at_end v rest) []) s2 else None)
        = None"
    proof (cases t)
      case Nil
      then show ?thesis by simp
    next
      case t: (Cons d t')
      show ?thesis
      proof (cases t')
        case Nil
        then show ?thesis using t by simp
      next
        case (Cons e t'')
        then have "d = EQUALS \<Longrightarrow> \<not> is_space e" using Cons.prems True t by simp
        then show ?thesis using t Cons by simp
      qed
    qed
    show ?thesis using True ih k by simp
  qed
qed

lemma match_value_before_space:
  "r \<noteq> [] \<Longrightarrow> \<not> is_space (last r) \<Longrightarrow> no_separator (r @ [c0]) \<Longrightarrow>
   match_value (r @ c0 # tail) = None"
  unfolding match_value_def
proof (induction r)
  case Nil
  then show ?case by simp
next
  case (Cons c r)
  show ?case
  proof (cases "is_space c")
    case False
    then show ?thesis by simp
  next
    case True
    then have ne: "r \<noteq> []" using Cons.prems by auto
    then obtain d r' where r: "r = d # r'" by (cases r) auto
    have ih: "greedy_plus is_space
        (\<lambda>s1. case s1 of [] \<Rightarrow> None
           | c # s2 \<Rightarrow> if c = EQUALS
               then greedy_plus is_space (greedy_star dot (\<lambda>v rest. at_end v rest) []) s2 else None)
        (r @ c0 # tail) = None"
      using Cons.IH ne Cons.prems no_separator_tl[of c "r @ [c0]"] by simp
    have e: "d = EQUALS \<Longrightarrow> \<not> is_space (hd (r' @ c0 # tail))"
      using Cons.prems(3) True r by (cases r') simp_all
    have k: "d = EQUALS \<Longrightarrow>
        greedy_plus is_space (greedy_star dot (\<lambda>v rest. at_end v rest) []) (r' @ c0 # tail) = None"
      using e by (intro greedy_plus_no_space) simp
    show ?thesis using True ih k r by simp
  qed
qed

lemma match_value_separator:
  "v \<noteq> [] \<Longrightarrow> \<not> is_space (hd v) \<Longrightarrow> \<forall>c\<in>set v. dot c \<Longrightarrow> match_value (py '' = '' @ v) = Some v"
  by (cases v) (simp_all add: match_value_def greedy_star_at_end)

lemma match_key_value_key:
  assumes "key_safe k None" "\<forall>c\<in>set k. dot c"
  shows "match_key_value k = Some (k, None)"
proof -
  let ?K = "\<lambda>key rest. case match_value rest of Some v \<Rightarrow> Some (key, Some v)
      | None \<Rightarrow> at_end (key, None :: pystr option) rest"
  have k: "k \<noteq> []" "\<not> is_space (last k)" "no_separator k"
    using assms(1) by (simp_all add: key_safe_def)
  have inner: "\<forall>n. 0 < n \<longrightarrow> n < length k \<longrightarrow> ?K ([] @ take n k) (drop n k @ []) = None"
  proof (intro allI impI)
    fix n assume n: "0 < n" "n < length k"
    have "match_value (drop n k) = None"
      using k by (intro match_value_no_separator no_separator_drop)
    then show "?K ([] @ take n k) (drop n k @ []) = None" using n by (simp add: at_end_def)
  qed
  have "match_value [] = None" by (simp add: match_value_def)
  then have "?K ([] @ k) [] = Some (k, None)" by (simp add: at_end_def)
  then show ?thesis
    using lazy_plus_first[of k dot ?K "[]" "[]", OF k(1) assms(2) inner]
    by (simp add: match_key_value_def)
qed

lemma match_key_value_key_value:
  assumes "key_safe k (Some v)" "\<forall>c\<in>set k. dot c" "value_safe v" "\<forall>c\<in>set v. dot c"
  shows "match_key_value (k @ py '' = '' @ v) = Some (k, Some v)"
proof -
  let ?K = "\<lambda>key rest. case match_value rest of Some v \<Rightarrow> Some (key, Some v)
      | None \<Rightarrow> at_end (key, None :: pystr option) rest"
  have k: "k \<noteq> []" "\<not> is_space (last k)" "no_separator (k @ [SPACE])"
    using assms(1) by (simp_all add: key_safe_def)
  have inner: "\<forall>n. 0 < n \<longrightarrow> n < length k \<longrightarrow> ?K ([] @ take n k) (drop n k @ py '' = '' @ v) = None"
  proof (intro allI impI)
    fix n assume n: "0 < n" "n < length k"
    have "no_separator (drop n (k @ [SPACE]))" using k(3) by (rule no_separator_drop)
    then have "no_separator (drop n k @ [SPACE])" using n by simp
    then have "match_value (drop n k @ SPACE # EQUALS # SPACE # v) = None"
      using n k by (intro match_value_before_space) simp_all
    then show "?K ([] @ take n k) (drop n k @ py '' = '' @ v) = None" using n by (simp add: at_end_def)
  qed
  have "match_value (py '' = '' @ v) = Some v"
    using assms(3,4) by (intro match_value_separator) (simp_all add: value_safe_def)
  then have "?K ([] @ k) (py '' = '' @ v) = Some (k, Some v)" by simp
  then show ?thesis
    using lazy_plus_first[of k dot ?K "[]" "py '' = '' @ v", OF k(1) assms(2) inner]
    by (simp add: match_key_value_def)
qed

lemma maybe_parse_metadata_after_space:
  "s \<noteq> [] \<Longrightarrow> \<not> is_space (hd s) \<Longrightarrow> maybe_parse_metadata (py ''# '' @ s) = match_key_value s"
  by (simp add: maybe_parse_metadata_def greedy_plus_no_space)

lemma metadata_line_parsed:
  assumes "key_safe k v" "\<forall>c\<in>set k. \<not> is_linebreak c"
    and "case v of None \<Rightarrow> True | Some s \<Rightarrow> value_safe s \<and> (\<forall>c\<in>set s. \<not> is_linebreak c)"
  shows "strip (metadata_line (k, v)) = metadata_line (k, v)
    \<and> maybe_parse_metadata (metadata_line (k, v)) = Some (k, v)"
proof -
  have lf: "is_linebreak LF" by (simp add: is_linebreak_def linebreaks_def)
  have dk: "\<forall>c\<in>set k. dot c" using assms(2) lf by (auto simp: dot_def)
  have k: "k \<noteq> []" "\<not> is_space (hd k)" "\<not> is_space (last k)"
    using assms(1) by (simp_all add: key_safe_def)
  show ?thesis
  proof (cases v)
    case None
    have l: "metadata_line (k, v) = py ''# '' @ k" using None by (simp add: metadata_line_def)
    have "strip (py ''# '' @ k) = py ''# '' @ k" using k by (intro strip_id) simp_all
    moreover have "maybe_parse_metadata (py ''# '' @ k) = Some (k, None)"
      using maybe_parse_metadata_after_space[of k] k match_key_value_key[OF _ dk] assms(1) None
      by simp
    ultimately show ?thesis using l None by simp
  next
    case (Some s)
    have s: "value_safe s" "\<forall>c\<in>set s. \<not> is_linebreak c" using assms(3) Some by simp_all
    then have s': "s \<noteq> []" "\<not> is_space (last s)" by (simp_all add: value_safe_def)
    have ds: "\<forall>c\<in>set s. dot c" using s(2) lf by (auto simp: dot_def)
    have ks: "key_safe k (Some s)" using assms(1) Some by simp
    have l: "metadata_line (k, v) = py ''# '' @ (k @ py '' = '' @ s)"
      using Some s' by (simp add: metadata_line_def)
    have "strip (py ''# '' @ (k @ py '' = '' @ s)) = py ''# '' @ (k @ py '' = '' @ s)"
      using s' by (intro strip_id) simp_all
    moreover have "maybe_parse_metadata (py ''# '' @ (k @ py '' = '' @ s)) = Some (k, Some s)"
      using maybe_parse_metadata_after_space[of "k @ py '' = '' @ s"] k
        match_key_value_key_value[OF ks dk s(1) ds] by simp
    ultimately show ?thesis using l Some by simp
  qed
qed

subsection \<open>Token lines\<close>

lemma str_join_starts: "xs \<noteq> [] \<Longrightarrow> \<exists>r. str_join sep xs = hd xs @ r"
proof (cases xs)
  case Nil
  assume "xs \<noteq> []" then show ?thesis using Nil by simp
next
  case (Cons x ys)
  then show ?thesis by (cases ys) simp_all
qed

lemma str_join_starts_sep:
  "2 \<le> length xs \<Longrightarrow> \<exists>r. str_join [c] xs = hd xs @ c # r"
proof (cases xs)
  case Nil
  assume "2 \<le> length xs" then show ?thesis using Nil by simp
next
  case (Cons x ys)
  assume "2 \<le> length xs"
  then show ?thesis using Cons by (cases ys) simp_all
qed

lemma hd_str_join: "xs \<noteq> [] \<Longrightarrow> hd xs \<noteq> [] \<Longrightarrow> hd (str_join sep xs) = hd (hd xs)"
  using str_join_starts[of xs sep] by auto

lemma token_line_parsed:
  assumes "token_safe tok"
  shows "strip (token_line tok) = token_line tok
    \<and> maybe_parse_metadata (token_line tok) = None
    \<and> parse_token (token_line tok) = zip fieldnames (token_cells tok)"
proof -
  have ne: "token_cells tok \<noteq> []" using length_token_cells[of tok] by auto
  have c: "\<forall>x\<in>set (token_cells tok). TAB \<notin> set x" "first_cell_safe (hd (token_cells tok))"
    "last (token_cells tok) \<noteq> []" "\<not> is_space (last (last (token_cells tok)))"
    using assms by (simp_all add: token_safe_def list_all_iff)
  have f: "hd (token_cells tok) \<noteq> []" "\<not> is_space (hd (hd (token_cells tok)))"
    using c(2) by (simp_all add: first_cell_safe_def)
  have l: "token_line tok \<noteq> []" by (rule token_line_nonempty)
  have h: "hd (token_line tok) = hd (hd (token_cells tok))"
    using hd_str_join[OF ne f(1)] by (simp add: token_line_def)
  have t: "last (token_line tok) = last (last (token_cells tok))"
    using last_str_join[OF ne c(3)] by (simp add: token_line_def)
  have 1: "strip (token_line tok) = token_line tok"
    using l h t f c by (intro strip_id) simp_all
  obtain r where r: "token_line tok = hd (token_cells tok) @ TAB # r"
    using str_join_starts_sep[of "token_cells tok" TAB] length_token_cells[of tok]
    by (auto simp: token_line_def)
  obtain a cell where cell: "hd (token_cells tok) = a # cell"
    using f(1) by (cases "hd (token_cells tok)") auto
  have 2: "maybe_parse_metadata (token_line tok) = None"
  proof (cases "a = HASH")
    case False
    then show ?thesis using r cell by (simp add: maybe_parse_metadata_def)
  next
    case True
    then obtain b cell' where b: "cell = b # cell'" "\<not> is_space b"
      using c(2) cell by (cases cell) (simp_all add: first_cell_safe_def)
    then show ?thesis using r cell by (simp add: maybe_parse_metadata_def)
  qed
  have 3: "parse_token (token_line tok) = zip fieldnames (token_cells tok)"
    using str_split_join[OF ne c(1)] by (simp add: parse_token_zip token_line_def)
  show ?thesis using 1 2 3 by simp
qed

subsection \<open>The parsed unit\<close>

lemma map_filter_all_Some:
  "\<forall>x\<in>set xs. f x = Some x \<Longrightarrow> List.map_filter f xs = xs"
  by (induction xs) (simp_all add: List.map_filter_simps)

lemma map_filter_map_Some:
  "\<forall>x\<in>set xs. f (g x) = Some x \<Longrightarrow> List.map_filter f (map g xs) = xs"
  by (induction xs) (simp_all add: List.map_filter_simps)

lemma map_filter_all_None:
  "\<forall>x\<in>set xs. f x = None \<Longrightarrow> List.map_filter f xs = []"
  by (induction xs) (simp_all add: List.map_filter_simps)

lemma map_filter_append:
  "List.map_filter f (xs @ ys) = List.map_filter f xs @ List.map_filter f ys"
  by (induction xs) (simp_all add: List.map_filter_simps split: option.splits)

lemma token_cells_zip:
  assumes n: "length cs = 10"
  shows "token_cells (zip fieldnames cs) = cs"
proof (rule nth_equalityI)
  show "length (token_cells (zip fieldnames cs)) = length cs"
    using n by (simp add: length_token_cells)
next
  fix i assume "i < length (token_cells (zip fieldnames cs))"
  then have i: "i < 10" by (simp add: length_token_cells)
  have "map_of (zip fieldnames cs) (fieldnames ! i) = Some (cs ! i)"
    using i n by (intro map_of_zip_nth) (simp_all add: length_fieldnames distinct_fieldnames)
  then show "token_cells (zip fieldnames cs) ! i = cs ! i"
    using i by (simp add: token_cells_def dict_get_def length_fieldnames)
qed

lemma line_buf_no_linebreak:
  assumes "list_all (\<lambda>c. unit_free_of c u) linebreaks"
  shows "\<forall>l\<in>set (line_buf u). \<forall>c\<in>set l. \<not> is_linebreak c"
proof (intro ballI notI)
  fix l c assume l: "l \<in> set (line_buf u)" and c: "c \<in> set l" and b: "is_linebreak c"
  have f: "unit_free_of c u" using assms b by (simp add: is_linebreak_def list_all_iff)
  have "c \<noteq> HASH" "c \<noteq> SPACE" "c \<noteq> EQUALS" "c \<noteq> TAB"
    using b by (auto simp: is_linebreak_def linebreaks_def)
  from line_buf_free_of[OF f this] l c show False by blast
qed

lemma parse_serialized:
  assumes "round_trip_safe u"
  shows "parse_from_string (serialize u)
    = \<lparr>tokens = map (\<lambda>tok. zip fieldnames (token_cells tok)) (tokens u), metadata = metadata u\<rparr>"
proof -
  have ne: "line_buf u \<noteq> []"
    using assms by (auto simp: round_trip_safe_def line_buf_def)
  have fr: "list_all (\<lambda>c. unit_free_of c u) linebreaks"
    using assms by (simp add: round_trip_safe_def)
  have nb: "\<forall>l\<in>set (line_buf u). \<forall>c\<in>set l. \<not> is_linebreak c"
    using fr by (rule line_buf_no_linebreak)
  have lines: "splitlines (serialize u) = line_buf u"
    using splitlines_join[OF ne nb] by (simp add: serialize_def)
  have md: "strip (metadata_line kv) = metadata_line kv
      \<and> maybe_parse_metadata (metadata_line kv) = Some kv" if "kv \<in> set (metadata u)" for kv
  proof -
    obtain k v where kv: "kv = (k, v)" by (cases kv)
    have safe: "key_safe k v" "case v of None \<Rightarrow> True | Some s \<Rightarrow> value_safe s"
      using assms that kv by (auto simp: round_trip_safe_def list_all_iff)
    have free: "\<forall>c. is_linebreak c \<longrightarrow> c \<notin> set k \<and> (case v of None \<Rightarrow> True | Some s \<Rightarrow> c \<notin> set s)"
      using fr that kv by (fastforce simp: is_linebreak_def list_all_iff unit_free_of_def)
    have 1: "\<forall>c\<in>set k. \<not> is_linebreak c" using free by blast
    have 2: "case v of None \<Rightarrow> True | Some s \<Rightarrow> value_safe s \<and> (\<forall>c\<in>set s. \<not> is_linebreak c)"
      using safe(2) free by (cases v) auto
    show ?thesis using metadata_line_parsed[OF safe(1) 1 2] kv by simp
  qed
  have tk: "strip (token_line tok) = token_line tok
      \<and> maybe_parse_metadata (token_line tok) = None
      \<and> parse_token (token_line tok) = zip fieldnames (token_cells tok)" if "tok \<in> set (tokens u)" for tok
    using assms that by (intro token_line_parsed) (simp add: round_trip_safe_def list_all_iff)
  have st: "map strip (line_buf u) = line_buf u"
    using md tk by (simp add: line_buf_def map_idI)
  have tl: "token_lines (line_buf u) = map token_line (tokens u)"
    unfolding token_lines_def st using md tk by (simp add: line_buf_def filter_id_conv filter_empty_conv)
  have me: "metadata_entries (line_buf u) = metadata u"
    unfolding metadata_entries_def st using md tk
    by (simp add: line_buf_def map_filter_append map_filter_map_Some map_filter_all_None)
  have t: "tokens (parse_lines [] [] (line_buf u)) = map (\<lambda>tok. zip fieldnames (token_cells tok)) (tokens u)"
    using tk by (simp add: parse_lines_tokens tl)
  have "distinct (map fst ([] @ metadata u))" using assms by (simp add: round_trip_safe_def)
  then have m: "metadata (parse_lines [] [] (line_buf u)) = metadata u"
    using foldl_update_distinct[of "[]" "metadata u"] by (simp add: parse_lines_metadata me)
  show ?thesis
    unfolding parse_from_string_def lines using t m by (cases "parse_lines [] [] (line_buf u)") simp
qed

text \<open>
  C1, as the code has it. For a unit that has a metadata entry or a token, with no line
  boundary in its keys, values and cells and no tab in its cells, whose keys are not empty,
  have no whitespace at either end and no equals sign between two whitespace characters
  (the space written before a value counted after a key that has one), whose values, when
  present, are not empty and have no whitespace at either end, and whose tokens have a
  first cell that is not empty, does not begin with whitespace and is not a number sign
  alone or followed by whitespace, and a last cell that is not empty and does not end with
  whitespace: parsing the serialized text gives the tokens with the ten cells of the unit's
  tokens, in order, and the metadata of the unit, in order.
\<close>

theorem round_trip_of_safe_units:
  "round_trip_safe u \<Longrightarrow>
   parse_from_string (serialize u)
     = \<lparr>tokens = map (\<lambda>tok. zip fieldnames (token_cells tok)) (tokens u), metadata = metadata u\<rparr>
   \<and> round_trips u"
proof -
  assume a: "round_trip_safe u"
  have p: "parse_from_string (serialize u)
     = \<lparr>tokens = map (\<lambda>tok. zip fieldnames (token_cells tok)) (tokens u), metadata = metadata u\<rparr>"
    using a by (rule parse_serialized)
  have "map token_cells (map (\<lambda>tok. zip fieldnames (token_cells tok)) (tokens u)) = map token_cells (tokens u)"
    by (simp add: token_cells_zip length_token_cells)
  then have "round_trips u" by (simp add: round_trips_def p)
  then show ?thesis using p by simp
qed

theorem round_trip_of_safe_units_witness:
  "parse_from_string (serialize
      \<lparr>tokens = [[(py ''id'', py ''#1''), (py ''form'', py ''The''), (py ''misc'', py ''SpaceAfter=No'')],
                 [(py ''id'', py ''2''), (py ''form'', py ''cat'')]],
       metadata = [(py ''newpar'', None), (py ''sent_id'', Some (py ''1'')), (py ''a =b'', Some (py ''c'')),
                   (py ''a ='', None), (py ''text'', Some (py ''The cat''))]\<rparr>)
     = \<lparr>tokens = [[(py ''id'', py ''#1''), (py ''form'', py ''The''), (py ''lemma'', py ''_''),
                   (py ''upos'', py ''_''), (py ''xpos'', py ''_''), (py ''feats'', py ''_''),
                   (py ''head'', py ''_''), (py ''deprel'', py ''_''), (py ''deps'', py ''_''),
                   (py ''misc'', py ''SpaceAfter=No'')],
                  [(py ''id'', py ''2''), (py ''form'', py ''cat''), (py ''lemma'', py ''_''),
                   (py ''upos'', py ''_''), (py ''xpos'', py ''_''), (py ''feats'', py ''_''),
                   (py ''head'', py ''_''), (py ''deprel'', py ''_''), (py ''deps'', py ''_''),
                   (py ''misc'', py ''_'')]],
        metadata = [(py ''newpar'', None), (py ''sent_id'', Some (py ''1'')), (py ''a =b'', Some (py ''c'')),
                    (py ''a ='', None), (py ''text'', Some (py ''The cat''))]\<rparr>
   \<and> round_trips
      \<lparr>tokens = [[(py ''id'', py ''#1''), (py ''form'', py ''The''), (py ''misc'', py ''SpaceAfter=No'')],
                 [(py ''id'', py ''2''), (py ''form'', py ''cat'')]],
       metadata = [(py ''newpar'', None), (py ''sent_id'', Some (py ''1'')), (py ''a =b'', Some (py ''c'')),
                   (py ''a ='', None), (py ''text'', Some (py ''The cat''))]\<rparr>"
proof -
  let ?u = "\<lparr>tokens = [[(py ''id'', py ''#1''), (py ''form'', py ''The''), (py ''misc'', py ''SpaceAfter=No'')],
                 [(py ''id'', py ''2''), (py ''form'', py ''cat'')]],
       metadata = [(py ''newpar'', None), (py ''sent_id'', Some (py ''1'')), (py ''a =b'', Some (py ''c'')),
                   (py ''a ='', None), (py ''text'', Some (py ''The cat''))]\<rparr>"
  have h: "round_trip_safe ?u" by code_simp
  have v: "\<lparr>tokens = map (\<lambda>tok. zip fieldnames (token_cells tok)) (tokens ?u), metadata = metadata ?u\<rparr>
     = \<lparr>tokens = [[(py ''id'', py ''#1''), (py ''form'', py ''The''), (py ''lemma'', py ''_''),
                   (py ''upos'', py ''_''), (py ''xpos'', py ''_''), (py ''feats'', py ''_''),
                   (py ''head'', py ''_''), (py ''deprel'', py ''_''), (py ''deps'', py ''_''),
                   (py ''misc'', py ''SpaceAfter=No'')],
                  [(py ''id'', py ''2''), (py ''form'', py ''cat''), (py ''lemma'', py ''_''),
                   (py ''upos'', py ''_''), (py ''xpos'', py ''_''), (py ''feats'', py ''_''),
                   (py ''head'', py ''_''), (py ''deprel'', py ''_''), (py ''deps'', py ''_''),
                   (py ''misc'', py ''_'')]],
        metadata = [(py ''newpar'', None), (py ''sent_id'', Some (py ''1'')), (py ''a =b'', Some (py ''c'')),
                    (py ''a ='', None), (py ''text'', Some (py ''The cat''))]\<rparr>"
    by code_simp
  note t = round_trip_of_safe_units[OF h]
  have 1: "parse_from_string (serialize ?u)
     = \<lparr>tokens = [[(py ''id'', py ''#1''), (py ''form'', py ''The''), (py ''lemma'', py ''_''),
                   (py ''upos'', py ''_''), (py ''xpos'', py ''_''), (py ''feats'', py ''_''),
                   (py ''head'', py ''_''), (py ''deprel'', py ''_''), (py ''deps'', py ''_''),
                   (py ''misc'', py ''SpaceAfter=No'')],
                  [(py ''id'', py ''2''), (py ''form'', py ''cat''), (py ''lemma'', py ''_''),
                   (py ''upos'', py ''_''), (py ''xpos'', py ''_''), (py ''feats'', py ''_''),
                   (py ''head'', py ''_''), (py ''deprel'', py ''_''), (py ''deps'', py ''_''),
                   (py ''misc'', py ''_'')]],
        metadata = [(py ''newpar'', None), (py ''sent_id'', Some (py ''1'')), (py ''a =b'', Some (py ''c'')),
                    (py ''a ='', None), (py ''text'', Some (py ''The cat''))]\<rparr>"
    using t[THEN conjunct1] by (simp only: v)
  show ?thesis using 1 t[THEN conjunct2] by (intro conjI)
qed

text \<open>
  The claim C1 as it is written asks only that the values have no tab and no newline. It
  fails on a metadata value that is the empty string, which comes back absent; on the unit
  with no metadata and no token, which comes back with one token; on a metadata value and
  on a first cell that begin with a space, which come back without it; on a last cell that
  is the empty string, which comes back as the underscore; on a first cell that is the
  number sign, whose line comes back as metadata; on a key with an equals sign between
  spaces, which comes back cut in two; and on a value with a carriage return or with the
  line separator U+2028, at which the line is cut.
\<close>

theorem round_trip_fails:
  "unit_free_of TAB \<lparr>tokens = [[(py ''id'', py ''1''), (py ''form'', py ''The'')]], metadata = [(py ''text'', Some [])]\<rparr>
   \<and> unit_free_of LF \<lparr>tokens = [[(py ''id'', py ''1''), (py ''form'', py ''The'')]], metadata = [(py ''text'', Some [])]\<rparr>
   \<and> metadata (parse_from_string (serialize
         \<lparr>tokens = [[(py ''id'', py ''1''), (py ''form'', py ''The'')]], metadata = [(py ''text'', Some [])]\<rparr>))
       = [(py ''text'', None)]
   \<and> \<not> round_trips \<lparr>tokens = [[(py ''id'', py ''1''), (py ''form'', py ''The'')]], metadata = [(py ''text'', Some [])]\<rparr>
   \<and> \<not> round_trips \<lparr>tokens = [], metadata = []\<rparr>
   \<and> \<not> round_trips \<lparr>tokens = [], metadata = [(py ''text'', Some (py '' The cat''))]\<rparr>
   \<and> \<not> round_trips \<lparr>tokens = [[(py ''id'', py '' 1'')]], metadata = []\<rparr>
   \<and> \<not> round_trips \<lparr>tokens = [[(py ''id'', py ''1''), (py ''misc'', [])]], metadata = []\<rparr>
   \<and> \<not> round_trips \<lparr>tokens = [[(py ''id'', py ''#'')]], metadata = []\<rparr>
   \<and> \<not> round_trips \<lparr>tokens = [], metadata = [(py ''a = b'', Some (py ''c''))]\<rparr>
   \<and> \<not> round_trips \<lparr>tokens = [], metadata = [(py ''text'', Some (py ''a'' @ [CR] @ py ''b''))]\<rparr>
   \<and> \<not> round_trips \<lparr>tokens = [], metadata = [(py ''text'', Some (py ''a'' @ [0x2028] @ py ''b''))]\<rparr>"
  by code_simp

end
